theory Spec2Isabelle
  imports Main "HOL-Library.AList"
begin

section \<open>Data model of \<^verbatim>\<open>utils/check_usage.py\<close>\<close>

text \<open>
  Python strings are modelled as \<open>string\<close> holding their UTF-8 bytes: the source only
  concatenates, joins and compares strings, and UTF-8 encoding commutes with all three.
  Python's unbounded integers are \<open>int\<close>. A Python \<^verbatim>\<open>dict\<close> is an association list
  in insertion order: \<open>AList.update\<close> is \<^verbatim>\<open>d[k] = v\<close> (in place when the key exists,
  appended otherwise), \<open>AList.delete\<close> is \<^verbatim>\<open>del d[k]\<close> and \<open>map_of\<close> is the lookup.
  A well-formed dict has distinct keys.
\<close>

record UserType =
  name :: string
  ip :: "string list"

type_synonym streaks = "(string \<times> (string \<times> int) list) list"

record state =
  ACTIVE_USERS :: "(string \<times> UserType) list"
  IP_STREAKS :: streaks

subsection \<open>String literals of the source (UTF-8)\<close>

definition word_log :: string where
  "word_log = [CHR 0xD0, CHR 0xBB, CHR 0xD0, CHR 0xBE, CHR 0xD0, CHR 0xB3]"

definition word_loga :: string where
  "word_loga = [CHR 0xD0, CHR 0xBB, CHR 0xD0, CHR 0xBE, CHR 0xD0, CHR 0xB3, CHR 0xD0, CHR 0xB0]"

definition word_logov :: string where
  "word_logov = [CHR 0xD0, CHR 0xBB, CHR 0xD0, CHR 0xBE, CHR 0xD0, CHR 0xB3, CHR 0xD0, CHR 0xBE,
     CHR 0xD0, CHR 0xB2]"

definition lit_vsego :: string where
  "lit_vsego = [CHR 0x20, CHR 0xD0, CHR 0xB2, CHR 0xD1, CHR 0x81, CHR 0xD0, CHR 0xB5, CHR 0xD0,
     CHR 0xB3, CHR 0xD0, CHR 0xBE, CHR 0x20]"

definition lit_aktivnyh_ip :: string where
  "lit_aktivnyh_ip = [CHR 0x20, CHR 0xD0, CHR 0xB0, CHR 0xD0, CHR 0xBA, CHR 0xD1, CHR 0x82,
     CHR 0xD0, CHR 0xB8, CHR 0xD0, CHR 0xB2, CHR 0xD0, CHR 0xBD, CHR 0xD1, CHR 0x8B, CHR 0xD1,
     CHR 0x85, CHR 0x20, CHR 0x69, CHR 0x70]"

definition lit_podryad :: string where
  "lit_podryad = [CHR 0x20, CHR 0xD0, CHR 0xBF, CHR 0xD0, CHR 0xBE, CHR 0xD0, CHR 0xB4, CHR 0xD1,
     CHR 0x80, CHR 0xD1, CHR 0x8F, CHR 0xD0, CHR 0xB4, CHR 0x29]"

definition lit_summary :: string where
  "lit_summary = [CHR 0x2D, CHR 0x2D, CHR 0x2D, CHR 0x2D, CHR 0x2D, CHR 0x2D, CHR 0x2D, CHR 0x2D,
     CHR 0x2D, CHR 0x0A, CHR 0xD0, CHR 0x92, CHR 0xD1, CHR 0x81, CHR 0xD0, CHR 0xB5, CHR 0xD0,
     CHR 0xB3, CHR 0xD0, CHR 0xBE, CHR 0x20, CHR 0xD0, CHR 0xB0, CHR 0xD0, CHR 0xBA, CHR 0xD1,
     CHR 0x82, CHR 0xD0, CHR 0xB8, CHR 0xD0, CHR 0xB2, CHR 0xD0, CHR 0xBD, CHR 0xD1, CHR 0x8B,
     CHR 0xD1, CHR 0x85, CHR 0x20, CHR 0x49, CHR 0x50, CHR 0x3A, CHR 0x20, CHR 0x3C, CHR 0x62,
     CHR 0x3E]"

subsection \<open>\<^verbatim>\<open>_ru_plurals_logs\<close>\<close>

definition ru_plurals_logs :: "int \<Rightarrow> string" where
  "ru_plurals_logs n =
     (let n_abs = \<bar>n\<bar> in
      if 11 \<le> n_abs mod 100 \<and> n_abs mod 100 \<le> 14 then word_logov
      else let last = n_abs mod 10 in
        if last = 1 then word_log
        else if 2 \<le> last \<and> last \<le> 4 then word_loga
        else word_logov)"

subsection \<open>\<^verbatim>\<open>check_ip_used\<close>\<close>

text \<open>
  The calls of the logger, the notifier, the panel client and \<^verbatim>\<open>print\<close> are recorded as
  events, one constructor per call site, carrying the values the call interpolates.
\<close>

datatype event =
    Logger_info_snapshot string "string list"
  | Logger_info_total int
  | Logger_warning string int "string list"
  | Send_logs string
  | Send_logs_warning string int "string list"
  | Disable_user string
  | Print string

text \<open>\<^verbatim>\<open>dict.fromkeys(xs)\<close>: every element becomes a key (value \<^verbatim>\<open>None\<close>), inserted in turn.\<close>

definition fromkeys :: "'a list \<Rightarrow> ('a \<times> unit) list" where
  "fromkeys xs = fold (\<lambda>k d. AList.update k () d) xs []"

text \<open>
  The loop runs over \<^verbatim>\<open>list(ACTIVE_USERS.keys())\<close> and reads \<^verbatim>\<open>ACTIVE_USERS[email]\<close> back;
  on a dict that is a walk over its items.
\<close>

definition check_ip_used_step ::
  "string \<times> UserType \<Rightarrow> (string \<times> string list) list \<times> event list
     \<Rightarrow> (string \<times> string list) list \<times> event list" where
  "check_ip_used_step entry acc =
     (let email = fst entry; data = snd entry;
          unique_ips = map fst (fromkeys (ip data))
      in (AList.update email unique_ips (fst acc),
          snd acc @ [Logger_info_snapshot email unique_ips]))"

definition check_ip_used ::
  "(string \<times> UserType) list \<Rightarrow> (string \<times> string list) list \<times> event list" where
  "check_ip_used active_users =
     (let (all_users_log, evs) = fold check_ip_used_step active_users ([], []);
          total_ips = sum_list (map (\<lambda>kv. int (length (snd kv))) all_users_log)
      in (all_users_log, evs @ [Logger_info_total total_ips]))"

text \<open>The specification's wording of the reduction: first seen, first kept.\<close>

fun dedup_first :: "'a list \<Rightarrow> 'a list" where
  "dedup_first [] = []"
| "dedup_first (x # xs) = x # dedup_first (filter (\<lambda>y. y \<noteq> x) xs)"

subsection \<open>\<^verbatim>\<open>_update_ip_streaks\<close>\<close>

text \<open>
  Python leaves the iteration order of \<^verbatim>\<open>set(ips)\<close> to the runtime. The model takes it
  as a parameter \<open>so\<close>: a function listing the distinct elements of a list in some order.
\<close>

definition valid_set_iter :: "(string list \<Rightarrow> string list) \<Rightarrow> bool" where
  "valid_set_iter so = (\<forall>xs. set (so xs) = set xs \<and> distinct (so xs))"

text \<open>
  \<^verbatim>\<open>IP_STREAKS\<close> is a \<^verbatim>\<open>defaultdict(dict)\<close>: reading \<^verbatim>\<open>IP_STREAKS[user]\<close> for a missing
  user stores an empty dict under that key and returns it.
\<close>

definition getitem_streaks :: "streaks \<Rightarrow> string \<Rightarrow> (string \<times> int) list \<times> streaks" where
  "getitem_streaks T user =
     (case map_of T user of
        Some m \<Rightarrow> (m, T)
      | None \<Rightarrow> ([], AList.update user [] T))"

text \<open>\<^verbatim>\<open>IP_STREAKS[user][ip] = IP_STREAKS[user].get(ip, 0) + 1\<close>\<close>

definition incr_streak :: "string \<Rightarrow> string \<Rightarrow> streaks \<Rightarrow> streaks" where
  "incr_streak user a T =
     (let (m, T1) = getitem_streaks T user;
          v = (case map_of m a of Some c \<Rightarrow> c | None \<Rightarrow> 0) + 1
      in AList.update user (AList.update a v m) T1)"

text \<open>
  \<^verbatim>\<open>del IP_STREAKS[user][ip]\<close>. The source deletes only keys it has just read from the
  same dict, so the \<^verbatim>\<open>KeyError\<close> of a missing key cannot arise.
\<close>

definition del_streak :: "string \<Rightarrow> string \<Rightarrow> streaks \<Rightarrow> streaks" where
  "del_streak user a T =
     (let (m, T1) = getitem_streaks T user
      in AList.update user (AList.delete a m) T1)"

text \<open>The body of the loop over \<^verbatim>\<open>current_active.items()\<close>.\<close>

definition update_user_streaks ::
  "(string list \<Rightarrow> string list) \<Rightarrow> string \<Rightarrow> string list \<Rightarrow> streaks \<Rightarrow> streaks" where
  "update_user_streaks so user ips T =
     (let curr_set = so ips;
          T1 = fold (incr_streak user) curr_set T;
          (m, T2) = getitem_streaks T1 user;
          stale_ips = filter (\<lambda>a. a \<notin> set curr_set) (map fst m)
      in fold (del_streak user) stale_ips T2)"

definition update_ip_streaks ::
  "(string list \<Rightarrow> string list) \<Rightarrow> (string \<times> string list) list \<Rightarrow> streaks \<Rightarrow> streaks" where
  "update_ip_streaks so current_active T =
     (let T1 = fold (\<lambda>(user, ips). update_user_streaks so user ips) current_active T;
          stale_users = filter (\<lambda>u. u \<notin> set (map fst current_active)) (map fst T1)
      in fold AList.delete stale_users T1)"

text \<open>Reading the table: the streak of an IP of a user, \<open>None\<close> when there is no entry.\<close>

definition streak_of :: "streaks \<Rightarrow> string \<Rightarrow> string \<Rightarrow> int option" where
  "streak_of T user a = (case map_of T user of None \<Rightarrow> None | Some m \<Rightarrow> map_of m a)"

text \<open>A well-formed table: the keys of the table and of every IP dict in it are distinct.\<close>

definition wf_streaks :: "streaks \<Rightarrow> bool" where
  "wf_streaks T =
     (distinct (map fst T) \<and> list_all (\<lambda>kv. distinct (map fst (snd kv))) T)"

text \<open>The IP dict of a user, empty when the user has no entry.\<close>

definition entry :: "streaks \<Rightarrow> string \<Rightarrow> (string \<times> int) list" where
  "entry T u = (case map_of T u of Some m \<Rightarrow> m | None \<Rightarrow> [])"

text \<open>An IP is active for a user in a snapshot.\<close>

definition active_in :: "(string \<times> string list) list \<Rightarrow> string \<Rightarrow> string \<Rightarrow> bool" where
  "active_in current_active user a =
     (case map_of current_active user of None \<Rightarrow> False | Some ips \<Rightarrow> a \<in> set ips)"

text \<open>The streak update of several cycles in a row, oldest snapshot first.\<close>

definition update_cycles ::
  "(string list \<Rightarrow> string list) \<Rightarrow> (string \<times> string list) list list \<Rightarrow> streaks \<Rightarrow> streaks" where
  "update_cycles so snapshots T = fold (update_ip_streaks so) snapshots T"

subsection \<open>\<^verbatim>\<open>_format_streak_messages\<close>\<close>

text \<open>\<^verbatim>\<open>str(n)\<close> of an integer: decimal digits, with a minus sign when negative.\<close>

fun str_nat :: "nat \<Rightarrow> string" where
  "str_nat n =
     (if n < 10 then [char_of (48 + n)]
      else str_nat (n div 10) @ [char_of (48 + n mod 10)])"

declare str_nat.simps [simp del]

definition str_int :: "int \<Rightarrow> string" where
  "str_int i = (if i < 0 then CHR ''-'' # str_nat (nat (- i)) else str_nat (nat i))"

text \<open>Reading a decimal numeral back: the value of a string of digits.\<close>

definition digits_value :: "string \<Rightarrow> nat" where
  "digits_value s = foldl (\<lambda>acc c. acc * 10 + (of_char c - 48)) 0 s"

text \<open>\<^verbatim>\<open>sep.join(xs)\<close>\<close>

fun join :: "string \<Rightarrow> string list \<Rightarrow> string" where
  "join sep [] = []"
| "join sep [x] = x"
| "join sep (x # y # ys) = x @ sep @ join sep (y # ys)"

text \<open>
  \<^verbatim>\<open>sorted(..., key=k, reverse=True)\<close> is stable: on integer keys it is the stable
  ascending sort by the negated key, which is \<open>sort_key\<close>.
\<close>

definition format_block :: "string \<Rightarrow> (string \<times> int) list \<Rightarrow> string" where
  "format_block user ip_map =
     (let ips_sorted = sort_key (\<lambda>kv. - snd kv) ip_map;
          header = user @ lit_vsego @ str_int (int (length ips_sorted)) @ lit_aktivnyh_ip;
          lines = map (\<lambda>(a, streak).
                    ''- '' @ a @ '' ('' @ str_int streak @ '' '' @ ru_plurals_logs streak
                      @ lit_podryad) ips_sorted
      in header @ [CHR 0x20, CHR 0x20, CHR 0x0A] @ join [CHR 0x0A] lines)"

definition format_streak_messages :: "streaks \<Rightarrow> string list" where
  "format_streak_messages T =
     (let users_sorted = sort_key (\<lambda>kv. - int (length (snd kv))) T
      in concat (map (\<lambda>(user, ip_map). if ip_map = [] then [] else [format_block user ip_map])
           users_sorted))"

subsection \<open>\<^verbatim>\<open>check_users_usage\<close>\<close>

text \<open>
  \<^verbatim>\<open>read_config()\<close> returns a JSON object; a key may be missing. The limits are integers
  (the bot writes them with \<^verbatim>\<open>int(...)\<close>), so the \<^verbatim>\<open>int(...)\<close> of the source is the
  identity on them.
\<close>

record config =
  EXCEPT_USERS :: "string list option"
  SPECIAL_LIMIT :: "(string \<times> int) list option"
  GENERAL_LIMIT :: "int option"
  CHECK_INTERVAL :: "int option"

datatype error = KeyError string | Propagated string

text \<open>
  What the external \<^verbatim>\<open>disable_user\<close> does for a user: it succeeds, raises
  \<^verbatim>\<open>ValueError\<close>, or raises something else.
\<close>

datatype disable_outcome = Disabled | Raises_ValueError string | Raises_other string

fun propagates :: "disable_outcome \<Rightarrow> bool" where
  "propagates (Raises_other msg) = True"
| "propagates outcome = False"

definition total_ips :: "streaks \<Rightarrow> int" where
  "total_ips T = sum_list (map (\<lambda>kv. int (length (snd kv))) T)"

definition summary_line :: "int \<Rightarrow> string" where
  "summary_line n = lit_summary @ str_int n @ ''</b>''"

text \<open>\<^verbatim>\<open>range(0, n, step)\<close> and the slices \<^verbatim>\<open>messages[i : i + 50]\<close>.\<close>

definition range_from0 :: "nat \<Rightarrow> nat \<Rightarrow> nat list" where
  "range_from0 n step = map (\<lambda>j. j * step) [0 ..< (n + step - 1) div step]"

definition message_slices :: "string list \<Rightarrow> string list list" where
  "message_slices messages =
     map (\<lambda>i. take 50 (drop i messages)) (range_from0 (length messages) 50)"

definition shorter_messages :: "string list \<Rightarrow> string list" where
  "shorter_messages messages = map (join [CHR 0x0A, CHR 0x0A]) (message_slices messages)"

text \<open>The messages of a cycle: the report blocks, then the summary line.\<close>

definition report_messages :: "streaks \<Rightarrow> string list" where
  "report_messages T = format_streak_messages T @ [summary_line (total_ips T)]"

text \<open>
  The loop over \<^verbatim>\<open>IP_STREAKS.items()\<close>. It returns the events and the exception that
  left the loop, if any: only \<^verbatim>\<open>ValueError\<close> is caught.
\<close>

fun enforce_limits ::
  "(string \<Rightarrow> disable_outcome) \<Rightarrow> string list \<Rightarrow> (string \<times> int) list \<Rightarrow> int \<Rightarrow> streaks
     \<Rightarrow> event list \<times> error option" where
  "enforce_limits disable_user except_users special_limit limit_number [] = ([], None)"
| "enforce_limits disable_user except_users special_limit limit_number
     ((user_name, ip_map) # rest) =
     (if user_name \<in> set except_users
      then enforce_limits disable_user except_users special_limit limit_number rest
      else
        let user_limit_number =
              (case map_of special_limit user_name of Some l \<Rightarrow> l | None \<Rightarrow> limit_number);
            active_ip_count = int (length ip_map)
        in if active_ip_count > user_limit_number
           then
             let evs = [Logger_warning user_name active_ip_count (map fst ip_map),
                        Send_logs_warning user_name active_ip_count (map fst ip_map),
                        Disable_user user_name]
             in (case disable_user user_name of
                   Disabled \<Rightarrow>
                     (let (evs', err) =
                        enforce_limits disable_user except_users special_limit limit_number rest
                      in (evs @ evs', err))
                 | Raises_ValueError msg \<Rightarrow>
                     (let (evs', err) =
                        enforce_limits disable_user except_users special_limit limit_number rest
                      in (evs @ [Print msg] @ evs', err))
                 | Raises_other msg \<Rightarrow> (evs, Some (Propagated msg)))
           else enforce_limits disable_user except_users special_limit limit_number rest)"

text \<open>
  One cycle. The result is the exception that ended the cycle (\<open>None\<close> when it ran to its
  end), the state it left and the events in order.
\<close>

definition check_users_usage ::
  "(string list \<Rightarrow> string list) \<Rightarrow> (string \<Rightarrow> disable_outcome) \<Rightarrow> config \<Rightarrow> state
     \<Rightarrow> error option \<times> state \<times> event list" where
  "check_users_usage so disable_user config_data st =
     (let (all_users_log, evs1) = check_ip_used (ACTIVE_USERS st);
          st1 = st\<lparr>IP_STREAKS := update_ip_streaks so all_users_log (IP_STREAKS st)\<rparr>;
          messages = report_messages (IP_STREAKS st1);
          evs2 = map Send_logs (shorter_messages messages);
          except_users = (case EXCEPT_USERS config_data of Some l \<Rightarrow> l | None \<Rightarrow> []);
          special_limit = (case SPECIAL_LIMIT config_data of Some d \<Rightarrow> d | None \<Rightarrow> [])
      in case GENERAL_LIMIT config_data of
           None \<Rightarrow> (Some (KeyError ''GENERAL_LIMIT''), st1, evs1 @ evs2)
         | Some limit_number \<Rightarrow>
             (case enforce_limits disable_user except_users special_limit limit_number
                     (IP_STREAKS st1) of
                (evs3, Some e) \<Rightarrow> (Some e, st1, evs1 @ evs2 @ evs3)
              | (evs3, None) \<Rightarrow> (None, st1\<lparr>ACTIVE_USERS := []\<rparr>, evs1 @ evs2 @ evs3)))"

text \<open>An event that flags a user: the warning, its notification or the disable call.\<close>

fun flags_user :: "string \<Rightarrow> event \<Rightarrow> bool" where
  "flags_user u (Logger_warning v n ips) = (v = u)"
| "flags_user u (Send_logs_warning v n ips) = (v = u)"
| "flags_user u (Disable_user v) = (v = u)"
| "flags_user u e = False"

fun is_print :: "event \<Rightarrow> bool" where
  "is_print (Print msg) = True"
| "is_print e = False"

text \<open>The texts handed to \<^verbatim>\<open>send_logs\<close> as report chunks, in order.\<close>

fun chunk_of :: "event \<Rightarrow> string list" where
  "chunk_of (Send_logs t) = [t]"
| "chunk_of e = []"

definition dispatched :: "event list \<Rightarrow> string list" where
  "dispatched evs = concat (map chunk_of evs)"

subsection \<open>\<^verbatim>\<open>run_check_users_usage\<close>\<close>

text \<open>
  The scheduler runs for ever; a run is observed through its first cycles. Each cycle
  finds in \<^verbatim>\<open>ACTIVE_USERS\<close> what the session collaborator has put there, reads the
  configuration, and after the cycle reads it again for \<^verbatim>\<open>CHECK_INTERVAL\<close>. An
  exception leaves the loop.
\<close>

record cycle_input =
  polled :: "(string \<times> UserType) list"
  cycle_config :: config
  panel :: "string \<Rightarrow> disable_outcome"
  sleep_config :: config

fun run_check_users_usage ::
  "(string list \<Rightarrow> string list) \<Rightarrow> cycle_input list \<Rightarrow> state
     \<Rightarrow> error option \<times> state \<times> event list" where
  "run_check_users_usage so [] st = (None, st, [])"
| "run_check_users_usage so (c # cs) st =
     (case check_users_usage so (panel c) (cycle_config c) (st\<lparr>ACTIVE_USERS := polled c\<rparr>) of
        (Some e, st1, evs) \<Rightarrow> (Some e, st1, evs)
      | (None, st1, evs) \<Rightarrow>
          (case CHECK_INTERVAL (sleep_config c) of
             None \<Rightarrow> (Some (KeyError ''CHECK_INTERVAL''), st1, evs)
           | Some interval \<Rightarrow>
               (let (err, st2, evs') = run_check_users_usage so cs st1
                in (err, st2, evs @ evs'))))"



subsection \<open>A concrete snapshot with 120 users\<close>

text \<open>
  The users are named \<^verbatim>\<open>u\<close>, \<^verbatim>\<open>uu\<close>, \<^verbatim>\<open>uuu\<close>, ...; each has been seen once, at one
  address. The streak table is still empty.
\<close>

definition user_k :: "nat \<Rightarrow> string" where
  "user_k k = replicate (Suc k) CHR ''u''"

definition state_120 :: state where
  "state_120 =
     \<lparr>ACTIVE_USERS = map (\<lambda>k. (user_k k, \<lparr>name = user_k k, ip = [''10.0.0.1'']\<rparr>)) [0..<120],
      IP_STREAKS = []\<rparr>"

definition config_3 :: config where
  "config_3 = \<lparr>EXCEPT_USERS = Some [], SPECIAL_LIMIT = Some [], GENERAL_LIMIT = Some 3,
     CHECK_INTERVAL = Some 60\<rparr>"

subsection \<open>Concrete cycles\<close>

text \<open>
  Two users with four distinct addresses each (one address of the first user seen twice),
  a general limit of 3 and an override of 5 for the first user.
\<close>

definition state_ab :: state where
  "state_ab =
     \<lparr>ACTIVE_USERS =
        [(''alice'', \<lparr>name = ''alice'',
            ip = [''10.0.0.1'', ''10.0.0.2'', ''10.0.0.3'', ''10.0.0.4'', ''10.0.0.1'']\<rparr>),
         (''bob'', \<lparr>name = ''bob'',
            ip = [''10.0.0.1'', ''10.0.0.2'', ''10.0.0.3'', ''10.0.0.4'']\<rparr>)],
      IP_STREAKS = []\<rparr>"

definition config_ab :: config where
  "config_ab = \<lparr>EXCEPT_USERS = None, SPECIAL_LIMIT = Some [(''alice'', 5)],
     GENERAL_LIMIT = Some 3, CHECK_INTERVAL = Some 60\<rparr>"

text \<open>
  Two users over a general limit of 3; the disable action fails with a value error for the
  first of them.
\<close>

definition state_bc :: state where
  "state_bc =
     \<lparr>ACTIVE_USERS =
        [(''bob'', \<lparr>name = ''bob'',
            ip = [''10.0.0.1'', ''10.0.0.2'', ''10.0.0.3'', ''10.0.0.4'']\<rparr>),
         (''carl'', \<lparr>name = ''carl'',
            ip = [''10.0.0.1'', ''10.0.0.2'', ''10.0.0.3'', ''10.0.0.4'', ''10.0.0.5'']\<rparr>)],
      IP_STREAKS = []\<rparr>"

definition fails_for_bob :: "string \<Rightarrow> disable_outcome" where
  "fails_for_bob v = (if v = ''bob'' then Raises_ValueError ''boom'' else Disabled)"

text \<open>A cycle in which the user \<^verbatim>\<open>eve\<close>, seen at six addresses, is exempt.\<close>

definition config_eve :: config where
  "config_eve = \<lparr>EXCEPT_USERS = Some [''eve''], SPECIAL_LIMIT = None, GENERAL_LIMIT = Some 3,
     CHECK_INTERVAL = Some 60\<rparr>"

definition cycle_eve :: cycle_input where
  "cycle_eve =
     \<lparr>polled =
        [(''eve'', \<lparr>name = ''eve'',
            ip = [''10.0.0.1'', ''10.0.0.2'', ''10.0.0.3'', ''10.0.0.4'', ''10.0.0.5'',
                  ''10.0.0.6'']\<rparr>),
         (''bob'', \<lparr>name = ''bob'',
            ip = [''10.0.0.1'', ''10.0.0.2'', ''10.0.0.3'', ''10.0.0.4'']\<rparr>)],
      cycle_config = config_eve,
      panel = (\<lambda>v. Disabled),
      sleep_config = config_eve\<rparr>"

section \<open>Properties\<close>

subsection \<open>Snapshot reduction\<close>

lemma keys_fold_update:
  "map fst (fold (\<lambda>k d. AList.update k () d) xs d) =
   map fst d @ dedup_first (filter (\<lambda>x. x \<notin> set (map fst d)) xs)"
proof (induction xs arbitrary: d)
  case Nil then show ?case by simp
next
  case (Cons x xs)
  show ?case
  proof (cases "x \<in> set (map fst d)")
    case True
    then show ?thesis by (simp add: Cons.IH AList.update_keys)
  next
    case False
    have "filter (\<lambda>y. y \<noteq> x) (filter (\<lambda>y. y \<notin> set (map fst d)) xs) =
          filter (\<lambda>y. y \<notin> set (map fst d @ [x])) xs"
      by (induction xs) auto
    with False show ?thesis by (simp add: Cons.IH AList.update_keys)
  qed
qed

lemma keys_fromkeys: "map fst (fromkeys xs) = dedup_first xs"
  by (simp add: fromkeys_def keys_fold_update)

lemma set_dedup_first: "set (dedup_first xs) = set xs"
  by (induction xs rule: dedup_first.induct) auto

lemma distinct_dedup_first: "distinct (dedup_first xs)"
  by (induction xs rule: dedup_first.induct) (auto simp: set_dedup_first)

lemma dedup_first_snoc:
  "dedup_first (xs @ [x]) = (if x \<in> set xs then dedup_first xs else dedup_first xs @ [x])"
proof (induction xs rule: dedup_first.induct)
  case 1 show ?case by simp
next
  case (2 y ys)
  then show ?case by (auto simp: filter_id_conv)
qed

lemma check_fold:
  "distinct (map fst au) \<Longrightarrow> set (map fst au) \<inter> set (map fst (fst acc)) = {} \<Longrightarrow>
   fold check_ip_used_step au acc =
     (fst acc @ map (\<lambda>kv. (fst kv, dedup_first (ip (snd kv)))) au,
      snd acc @ map (\<lambda>kv. Logger_info_snapshot (fst kv) (dedup_first (ip (snd kv)))) au)"
proof (induction au arbitrary: acc)
  case Nil then show ?case by simp
next
  case (Cons e au)
  have upd: "AList.update (fst e) v (fst acc) = fst acc @ [(fst e, v)]" for v
    using Cons.prems(2) by (induction "fst acc" arbitrary: acc) auto
  show ?case
    using Cons.prems
    by (subst fold_simps, subst Cons.IH) (auto simp: check_ip_used_step_def keys_fromkeys upd Let_def)
qed


lemma check_ip_used_eq:
  assumes "distinct (map fst au)"
  shows "fst (check_ip_used au) = map (\<lambda>kv. (fst kv, dedup_first (ip (snd kv)))) au"
  using check_fold [OF assms, of "([], [])"]
  by (simp add: check_ip_used_def)


text \<open>
  Claim C8. For a session snapshot (a dict, so with distinct user names),
  \<^verbatim>\<open>check_ip_used\<close> returns, user by user and in the snapshot's order, the user's IP
  list with duplicates removed, each IP kept at its first occurrence: the output list is
  duplicate-free, has the same elements as the raw list, and grows only at its end when
  the raw list grows. The function is total: it has no error result.
\<close>

theorem check_ip_used_first_seen:
  assumes "distinct (map fst active_users)"
  shows "fst (check_ip_used active_users) =
           map (\<lambda>kv. (fst kv, dedup_first (ip (snd kv)))) active_users
     \<and> distinct (dedup_first xs) \<and> set (dedup_first xs) = set xs
     \<and> dedup_first (xs @ [x]) =
         (if x \<in> set xs then dedup_first xs else dedup_first xs @ [x])"
  using check_ip_used_eq [OF assms]
  by (simp add: distinct_dedup_first set_dedup_first dedup_first_snoc)

theorem check_ip_used_first_seen_witness:
  "fst (check_ip_used
          [(''u'', \<lparr>name = ''u'', ip = [''3.3.3.3'', ''1.1.1.1'', ''3.3.3.3'']\<rparr>),
           (''v'', \<lparr>name = ''v'', ip = []\<rparr>)])
     = [(''u'', [''3.3.3.3'', ''1.1.1.1'']), (''v'', [])]"
  using check_ip_used_first_seen
    [of "[(''u'', \<lparr>name = ''u'', ip = [''3.3.3.3'', ''1.1.1.1'', ''3.3.3.3'']\<rparr>),
          (''v'', \<lparr>name = ''v'', ip = []\<rparr>)]" "[]" "''x''"]
  by simp

subsection \<open>Pluralisation\<close>

text \<open>
  Claim C9. For every integer count, \<^verbatim>\<open>_ru_plurals_logs\<close> looks at the decimal digits
  of the count (of its absolute value, which is the count itself for the non-negative
  counts a streak has): the genitive plural when the last two digits are 11 to 14,
  otherwise the singular when the last digit is 1, the plural when it is 2 to 4, and the
  genitive plural in every other case. The three forms are different words, and the
  twelve sample counts give the forms listed.
\<close>

theorem ru_plurals_logs_rule:
  "ru_plurals_logs n =
     (if 11 \<le> \<bar>n\<bar> mod 100 \<and> \<bar>n\<bar> mod 100 \<le> 14 then word_logov
      else if \<bar>n\<bar> mod 10 = 1 then word_log
      else if 2 \<le> \<bar>n\<bar> mod 10 \<and> \<bar>n\<bar> mod 10 \<le> 4 then word_loga
      else word_logov)
   \<and> map ru_plurals_logs [1, 2, 3, 4, 5, 11, 12, 21, 22, 101, 111, 112] =
       [word_log, word_loga, word_loga, word_loga, word_logov, word_logov, word_logov,
        word_log, word_loga, word_log, word_logov, word_logov]
   \<and> distinct [word_log, word_loga, word_logov]"
  by (simp add: ru_plurals_logs_def Let_def word_log_def word_loga_def word_logov_def)

subsection \<open>Streak table: single steps\<close>

lemma streak_of_entry: "streak_of T u a = map_of (entry T u) a"
  by (simp add: streak_of_def entry_def split: option.splits)

lemma getitem_fst: "fst (getitem_streaks T u) = entry T u"
  by (simp add: getitem_streaks_def entry_def split: option.splits)

lemma getitem_snd_map_of: "map_of (snd (getitem_streaks T u)) = (map_of T)(u \<mapsto> entry T u)"
  by (auto simp: getitem_streaks_def entry_def update_conv' split: option.splits)

lemma getitem_snd_keys: "distinct (map fst T) \<Longrightarrow> distinct (map fst (snd (getitem_streaks T u)))"
  by (auto simp: getitem_streaks_def distinct_update split: option.splits)

lemma incr_streak_map_of:
  "map_of (incr_streak u a T) =
   (map_of T)(u \<mapsto> AList.update a ((case map_of (entry T u) a of Some c \<Rightarrow> c | None \<Rightarrow> 0) + 1) (entry T u))"
  using getitem_fst [of T u] getitem_snd_map_of [of T u]
  by (cases "getitem_streaks T u") (simp add: incr_streak_def update_conv')

lemma del_streak_map_of:
  "map_of (del_streak u a T) = (map_of T)(u \<mapsto> AList.delete a (entry T u))"
  using getitem_fst [of T u] getitem_snd_map_of [of T u]
  by (cases "getitem_streaks T u") (simp add: del_streak_def update_conv')

lemma incr_streak_distinct: "distinct (map fst T) \<Longrightarrow> distinct (map fst (incr_streak u a T))"
  using getitem_snd_keys [of T u]
  by (cases "getitem_streaks T u") (simp add: incr_streak_def distinct_update)

lemma del_streak_distinct: "distinct (map fst T) \<Longrightarrow> distinct (map fst (del_streak u a T))"
  using getitem_snd_keys [of T u]
  by (cases "getitem_streaks T u") (simp add: del_streak_def distinct_update)

lemma entry_incr_same: "entry (incr_streak u a T) u =
    AList.update a ((case map_of (entry T u) a of Some c \<Rightarrow> c | None \<Rightarrow> 0) + 1) (entry T u)"
  by (simp add: entry_def [of "incr_streak u a T"] incr_streak_map_of)

lemma entry_incr_other: "u' \<noteq> u \<Longrightarrow> map_of (incr_streak u a T) u' = map_of T u'"
  by (simp add: incr_streak_map_of)

lemma entry_del_same: "entry (del_streak u a T) u = AList.delete a (entry T u)"
  by (simp add: entry_def [of "del_streak u a T"] del_streak_map_of)

lemma fold_incr_other: "u' \<noteq> u \<Longrightarrow> map_of (fold (incr_streak u) as T) u' = map_of T u'"
  by (induction as arbitrary: T) (simp_all add: incr_streak_map_of)

lemma fold_del_other: "u' \<noteq> u \<Longrightarrow> map_of (fold (del_streak u) as T) u' = map_of T u'"
  by (induction as arbitrary: T) (simp_all add: del_streak_map_of)

lemma fold_incr_distinct: "distinct (map fst T) \<Longrightarrow> distinct (map fst (fold (incr_streak u) as T))"
  by (induction as arbitrary: T) (simp_all add: incr_streak_distinct)

lemma fold_del_distinct: "distinct (map fst T) \<Longrightarrow> distinct (map fst (fold (del_streak u) as T))"
  by (induction as arbitrary: T) (simp_all add: del_streak_distinct)

lemma fold_incr_entry:
  "distinct as \<Longrightarrow> map_of (entry (fold (incr_streak u) as T) u) a =
     (if a \<in> set as then Some ((case map_of (entry T u) a of Some c \<Rightarrow> c | None \<Rightarrow> 0) + 1)
      else map_of (entry T u) a)"
proof (induction as arbitrary: T)
  case Nil then show ?case by simp
next
  case (Cons b as)
  then show ?case by (auto simp: entry_incr_same update_conv')
qed

lemma fold_del_entry:
  "map_of (entry (fold (del_streak u) as T) u) a =
     (if a \<in> set as then None else map_of (entry T u) a)"
proof (induction as arbitrary: T)
  case Nil then show ?case by simp
next
  case (Cons b as)
  then show ?case by (auto simp: entry_del_same delete_conv')
qed

lemma fold_del_present:
  "map_of T u \<noteq> None \<Longrightarrow> map_of (fold (del_streak u) as T) u \<noteq> None"
  by (induction as arbitrary: T) (simp_all add: del_streak_map_of)


subsection \<open>Streak table: one user, one cycle\<close>

lemma update_user_other:
  "u' \<noteq> u \<Longrightarrow> map_of (update_user_streaks so u ips T) u' = map_of T u'"
  by (cases "getitem_streaks (fold (incr_streak u) (so ips) T) u")
     (use getitem_snd_map_of [of "fold (incr_streak u) (so ips) T" u] in
      \<open>simp add: update_user_streaks_def fold_del_other fold_incr_other\<close>)

lemma update_user_present:
  "map_of (update_user_streaks so u ips T) u \<noteq> None"
  by (cases "getitem_streaks (fold (incr_streak u) (so ips) T) u")
     (use getitem_snd_map_of [of "fold (incr_streak u) (so ips) T" u] in
      \<open>simp add: update_user_streaks_def fold_del_present\<close>)

lemma update_user_distinct:
  "distinct (map fst T) \<Longrightarrow> distinct (map fst (update_user_streaks so u ips T))"
  by (cases "getitem_streaks (fold (incr_streak u) (so ips) T) u")
     (use getitem_snd_keys [of "fold (incr_streak u) (so ips) T" u] in
      \<open>simp add: update_user_streaks_def fold_del_distinct fold_incr_distinct\<close>)

lemma entry_getitem_snd: "entry (snd (getitem_streaks T u)) u = entry T u"
  by (simp add: entry_def [of "snd (getitem_streaks T u)"] getitem_snd_map_of)

lemma update_user_entry:
  assumes "valid_set_iter so"
  shows "map_of (entry (update_user_streaks so u ips T) u) a =
     (if a \<in> set ips then Some ((case map_of (entry T u) a of Some c \<Rightarrow> c | None \<Rightarrow> 0) + 1)
      else None)"
proof -
  let ?T1 = "fold (incr_streak u) (so ips) T"
  obtain m T2 where g: "getitem_streaks ?T1 u = (m, T2)" by (cases "getitem_streaks ?T1 u")
  have m: "m = entry ?T1 u" using getitem_fst [of ?T1 u] g by simp
  have T2: "entry T2 u = entry ?T1 u" using entry_getitem_snd [of ?T1 u] g by simp
  have so: "set (so ips) = set ips" "distinct (so ips)"
    using assms by (simp_all add: valid_set_iter_def)
  have e1: "map_of (entry ?T1 u) a =
     (if a \<in> set ips then Some ((case map_of (entry T u) a of Some c \<Rightarrow> c | None \<Rightarrow> 0) + 1)
      else map_of (entry T u) a)"
    using fold_incr_entry [OF so(2), of u T a] so(1) by simp
  have res: "update_user_streaks so u ips T =
      fold (del_streak u) (filter (\<lambda>a. a \<notin> set ips) (map fst (entry ?T1 u))) T2"
    using g m so(1) by (simp add: update_user_streaks_def)
  show ?thesis
  proof (cases "a \<in> set ips")
    case True
    then show ?thesis by (simp add: res fold_del_entry T2 e1)
  next
    case False
    show ?thesis
    proof (cases "a \<in> set (map fst (entry ?T1 u))")
      case True
      with False show ?thesis by (simp add: res fold_del_entry)
    next
      case False': False
      then have "map_of (entry ?T1 u) a = None"
        by (simp add: map_of_eq_None_iff)
      with False False' show ?thesis by (simp add: res fold_del_entry T2)
    qed
  qed
qed


subsection \<open>Streak table: one cycle\<close>

lemma fold_users_other:
  "u \<notin> set (map fst cur) \<Longrightarrow>
   map_of (fold (\<lambda>(user, ips). update_user_streaks so user ips) cur T) u = map_of T u"
  by (induction cur arbitrary: T) (auto simp: update_user_other)

lemma fold_users_distinct:
  "distinct (map fst T) \<Longrightarrow>
   distinct (map fst (fold (\<lambda>(user, ips). update_user_streaks so user ips) cur T))"
  by (induction cur arbitrary: T) (auto simp: update_user_distinct)

lemma fold_users_present:
  "u \<in> set (map fst cur) \<Longrightarrow>
   map_of (fold (\<lambda>(user, ips). update_user_streaks so user ips) cur T) u \<noteq> None"
proof (induction cur arbitrary: T)
  case Nil then show ?case by simp
next
  case (Cons e cur)
  obtain v ips where e: "e = (v, ips)" by (cases e)
  show ?case
  proof (cases "u \<in> set (map fst cur)")
    case True
    then show ?thesis using Cons.IH by simp
  next
    case False
    with Cons.prems e have "v = u" by simp
    with False e show ?thesis
      by (simp add: fold_users_other update_user_present)
  qed
qed

lemma entry_cong: "map_of T u = map_of T' u \<Longrightarrow> entry T u = entry T' u"
  by (simp add: entry_def)

lemma fold_users_entry:
  assumes "valid_set_iter so"
  shows "distinct (map fst cur) \<Longrightarrow> map_of cur u = Some ips \<Longrightarrow>
     map_of (entry (fold (\<lambda>(user, ips). update_user_streaks so user ips) cur T) u) a =
     (if a \<in> set ips then Some ((case map_of (entry T u) a of Some c \<Rightarrow> c | None \<Rightarrow> 0) + 1)
      else None)"
proof (induction cur arbitrary: T)
  case Nil then show ?case by simp
next
  case (Cons e cur)
  obtain v ips' where e: "e = (v, ips')" by (cases e)
  show ?case
  proof (cases "v = u")
    case True
    with Cons.prems e have notin: "u \<notin> set (map fst cur)" and ips: "ips' = ips" by auto
    have "entry (fold (\<lambda>(user, ips). update_user_streaks so user ips) cur
                  (update_user_streaks so u ips T)) u
          = entry (update_user_streaks so u ips T) u"
      by (rule entry_cong) (rule fold_users_other [OF notin])
    then show ?thesis using True e ips by (simp add: update_user_entry [OF assms])
  next
    case False
    with Cons.prems e have d: "distinct (map fst cur)" and m: "map_of cur u = Some ips" by auto
    have "entry (update_user_streaks so v ips' T) u = entry T u"
      by (rule entry_cong) (use False in \<open>simp add: update_user_other\<close>)
    then show ?thesis using Cons.IH [OF d m, of "update_user_streaks so v ips' T"] e by simp
  qed
qed

lemma fold_delete_map_of:
  "map_of (fold AList.delete ks T) u = (if u \<in> set ks then None else map_of T u)"
  by (induction ks arbitrary: T) (auto simp: delete_conv')

lemma fold_delete_distinct:
  "distinct (map fst T) \<Longrightarrow> distinct (map fst (fold AList.delete ks T))"
  by (induction ks arbitrary: T) (auto simp: distinct_delete)

lemma update_ip_streaks_distinct:
  "distinct (map fst T) \<Longrightarrow> distinct (map fst (update_ip_streaks so cur T))"
  by (simp add: update_ip_streaks_def Let_def fold_delete_distinct fold_users_distinct)

lemma update_ip_streaks_absent:
  "u \<notin> set (map fst cur) \<Longrightarrow> map_of (update_ip_streaks so cur T) u = None"
proof -
  let ?T1 = "fold (\<lambda>(user, ips). update_user_streaks so user ips) cur T"
  assume notin: "u \<notin> set (map fst cur)"
  show ?thesis
  proof (cases "u \<in> set (map fst ?T1)")
    case True
    with notin show ?thesis by (simp add: update_ip_streaks_def Let_def fold_delete_map_of)
  next
    case False
    then have "map_of ?T1 u = None" by (simp add: map_of_eq_None_iff)
    then show ?thesis by (simp add: update_ip_streaks_def Let_def fold_delete_map_of)
  qed
qed

lemma update_ip_streaks_kept:
  "u \<in> set (map fst cur) \<Longrightarrow>
   map_of (update_ip_streaks so cur T) u =
   map_of (fold (\<lambda>(user, ips). update_user_streaks so user ips) cur T) u"
  by (simp add: update_ip_streaks_def Let_def fold_delete_map_of)

lemma update_ip_streaks_present:
  "u \<in> set (map fst cur) \<Longrightarrow> map_of (update_ip_streaks so cur T) u \<noteq> None"
  by (simp add: update_ip_streaks_kept fold_users_present)

lemma update_ip_streaks_entry:
  assumes "valid_set_iter so" "distinct (map fst cur)" "map_of cur u = Some ips"
  shows "map_of (entry (update_ip_streaks so cur T) u) a =
     (if a \<in> set ips then Some ((case map_of (entry T u) a of Some c \<Rightarrow> c | None \<Rightarrow> 0) + 1)
      else None)"
proof -
  have "u \<in> set (map fst cur)" using assms(3) by (auto dest: map_of_SomeD intro: rev_image_eqI)
  then have "entry (update_ip_streaks so cur T) u =
        entry (fold (\<lambda>(user, ips). update_user_streaks so user ips) cur T) u"
    by (intro entry_cong update_ip_streaks_kept)
  then show ?thesis using fold_users_entry [OF assms] by simp
qed

lemma update_ip_streaks_streak:
  assumes "valid_set_iter so" "distinct (map fst cur)"
  shows "streak_of (update_ip_streaks so cur T) u a =
     (if active_in cur u a
      then Some ((case streak_of T u a of Some c \<Rightarrow> c | None \<Rightarrow> 0) + 1) else None)"
proof (cases "map_of cur u")
  case None
  then have "u \<notin> set (map fst cur)" by (simp add: map_of_eq_None_iff)
  then have "map_of (update_ip_streaks so cur T) u = None" by (rule update_ip_streaks_absent)
  with None show ?thesis by (simp add: streak_of_def active_in_def)
next
  case (Some ips)
  show ?thesis
    using update_ip_streaks_entry [OF assms Some, of T a] Some
    by (simp add: streak_of_entry active_in_def)
qed


subsection \<open>Streak table: several cycles\<close>

lemma valid_set_iter_remdups: "valid_set_iter remdups"
  by (simp add: valid_set_iter_def)

lemma update_cycles_present:
  assumes "valid_set_iter so"
  shows "\<forall>c \<in> set cs. distinct (map fst c) \<and> active_in c u a \<Longrightarrow> cs \<noteq> [] \<Longrightarrow>
     streak_of (update_cycles so cs T) u a =
       Some ((case streak_of T u a of Some n \<Rightarrow> n | None \<Rightarrow> 0) + int (length cs))"
proof (induction cs arbitrary: T)
  case Nil then show ?case by simp
next
  case (Cons c cs)
  have c: "distinct (map fst c)" "active_in c u a" using Cons.prems(1) by simp_all
  have step: "streak_of (update_ip_streaks so c T) u a =
      Some ((case streak_of T u a of Some n \<Rightarrow> n | None \<Rightarrow> 0) + 1)"
    using update_ip_streaks_streak [OF assms c(1), of T u a] c(2) by simp
  show ?case
  proof (cases "cs = []")
    case True
    then show ?thesis using step by (simp add: update_cycles_def)
  next
    case False
    have "streak_of (update_cycles so cs (update_ip_streaks so c T)) u a =
       Some ((case streak_of (update_ip_streaks so c T) u a of Some n \<Rightarrow> n | None \<Rightarrow> 0)
             + int (length cs))"
      using Cons.IH [OF _ False] Cons.prems(1) by simp
    then show ?thesis using step by (simp add: update_cycles_def)
  qed
qed

lemma update_cycles_absent:
  assumes "valid_set_iter so"
  shows "\<forall>c \<in> set cs. distinct (map fst c) \<and> \<not> active_in c u a \<Longrightarrow>
     streak_of T u a = None \<Longrightarrow> streak_of (update_cycles so cs T) u a = None"
proof (induction cs arbitrary: T)
  case Nil then show ?case by (simp add: update_cycles_def)
next
  case (Cons c cs)
  have "streak_of (update_ip_streaks so c T) u a = None"
    using update_ip_streaks_streak [OF assms, of c T u a] Cons.prems(1) by simp
  then have "streak_of (update_cycles so cs (update_ip_streaks so c T)) u a = None"
    using Cons.IH Cons.prems(1) by simp
  then show ?case by (simp add: update_cycles_def)
qed

text \<open>
  Claim C1. Take a user and an IP with no entry in the streak table. If the IP is in the
  user's active set in each of the next \<open>k \<ge> 1\<close> cycles, then after the streak update of
  the \<open>k\<close>-th of them the table maps the user and the IP to exactly \<open>k\<close>. If the IP is
  missing in the cycle after, the entry is gone after that cycle's update. It stays gone
  through any further cycles without the IP, and the first cycle that has the IP again
  gives it the streak 1.
\<close>

theorem streak_semantics:
  assumes so: "valid_set_iter so"
    and start: "streak_of T u a = None"
    and present: "present \<noteq> []" "\<forall>c \<in> set present. distinct (map fst c) \<and> active_in c u a"
    and absent: "distinct (map fst absent)" "\<not> active_in absent u a"
    and gap: "\<forall>c \<in> set gap. distinct (map fst c) \<and> \<not> active_in c u a"
    and again: "distinct (map fst again)" "active_in again u a"
  shows "streak_of (update_cycles so present T) u a = Some (int (length present))
     \<and> streak_of (update_cycles so (present @ [absent]) T) u a = None
     \<and> streak_of (update_cycles so (present @ [absent] @ gap @ [again]) T) u a = Some 1"
proof -
  let ?Tk = "update_cycles so present T"
  let ?Tk1 = "update_ip_streaks so absent ?Tk"
  let ?Tg = "update_cycles so gap ?Tk1"
  have k: "streak_of ?Tk u a = Some (int (length present))"
    using update_cycles_present [OF so present(2) present(1), of T] start by simp
  have k1: "streak_of ?Tk1 u a = None"
    using update_ip_streaks_streak [OF so absent(1), of ?Tk u a] absent(2) by simp
  have g: "streak_of ?Tg u a = None"
    by (rule update_cycles_absent [OF so gap k1])
  have "streak_of (update_ip_streaks so again ?Tg) u a = Some 1"
    using update_ip_streaks_streak [OF so again(1), of ?Tg u a] again(2) g by simp
  then have "streak_of (update_cycles so (present @ [absent] @ gap @ [again]) T) u a = Some 1"
    by (simp add: update_cycles_def)
  moreover have "streak_of (update_cycles so (present @ [absent]) T) u a = None"
    using k1 by (simp add: update_cycles_def)
  ultimately show ?thesis using k by simp
qed

theorem streak_semantics_witness:
  "streak_of (update_cycles remdups [[(''user'', [''1.1.1.1'', ''2.2.2.2''])], [(''user'', [''1.1.1.1''])], [(''user'', [''3.3.3.3'', ''1.1.1.1''])]] []) ''user'' ''1.1.1.1'' = Some 3
   \<and> streak_of (update_cycles remdups ([[(''user'', [''1.1.1.1'', ''2.2.2.2''])], [(''user'', [''1.1.1.1''])], [(''user'', [''3.3.3.3'', ''1.1.1.1''])]] @ [[(''user'', [''2.2.2.2''])]]) []) ''user'' ''1.1.1.1'' = None
   \<and> streak_of (update_cycles remdups ([[(''user'', [''1.1.1.1'', ''2.2.2.2''])], [(''user'', [''1.1.1.1''])], [(''user'', [''3.3.3.3'', ''1.1.1.1''])]] @ [[(''user'', [''2.2.2.2''])]] @ [[]] @ [[(''user'', [''1.1.1.1''])]]) []) ''user'' ''1.1.1.1'' = Some 1"
  using streak_semantics [OF valid_set_iter_remdups, of "[]" "''user''" "''1.1.1.1''"
      "[[(''user'', [''1.1.1.1'', ''2.2.2.2''])], [(''user'', [''1.1.1.1''])], [(''user'', [''3.3.3.3'', ''1.1.1.1''])]]"
      "[(''user'', [''2.2.2.2''])]" "[[]]" "[(''user'', [''1.1.1.1''])]"]
  by (simp add: streak_of_def active_in_def)

lemma map_of_all_None:
  assumes "\<And>a. map_of m a = None"
  shows "m = []"
proof (cases m)
  case Nil then show ?thesis .
next
  case (Cons p ps)
  then have "map_of m (fst p) = Some (snd p)" by simp
  with assms show ?thesis by simp
qed

text \<open>
  Claim C2, as the code has it. A user who has no key in the current snapshot is removed
  from the streak table whatever the table held before. A user who is in the snapshot
  with an empty IP list is not removed: the update leaves (or creates) an entry for that
  user holding an empty IP dict.
\<close>

theorem empty_active_set:
  assumes "valid_set_iter so" "distinct (map fst cur)"
  shows "(map_of cur u = None \<longrightarrow> map_of (update_ip_streaks so cur T) u = None)
     \<and> (map_of cur u = Some [] \<longrightarrow> map_of (update_ip_streaks so cur T) u = Some [])"
proof (intro conjI impI)
  assume "map_of cur u = None"
  then have "u \<notin> set (map fst cur)" by (simp add: map_of_eq_None_iff)
  then show "map_of (update_ip_streaks so cur T) u = None" by (rule update_ip_streaks_absent)
next
  assume e: "map_of cur u = Some []"
  then have "u \<in> set (map fst cur)" by (auto dest: map_of_SomeD intro: rev_image_eqI)
  then obtain m where m: "map_of (update_ip_streaks so cur T) u = Some m"
    using update_ip_streaks_present [of u cur so T] by auto
  then have "entry (update_ip_streaks so cur T) u = m" by (simp add: entry_def)
  then have "map_of m a = None" for a
    using update_ip_streaks_entry [OF assms e, of T a] by simp
  then have "m = []" by (rule map_of_all_None)
  with m show "map_of (update_ip_streaks so cur T) u = Some []" by simp
qed


theorem empty_active_set_witness:
  "map_of (update_ip_streaks remdups [(''kept'', [])]
             [(''kept'', [(''1.1.1.1'', 3)]), (''gone'', [(''2.2.2.2'', 5)])]) ''gone'' = None
   \<and> map_of (update_ip_streaks remdups [(''kept'', [])]
             [(''kept'', [(''1.1.1.1'', 3)]), (''gone'', [(''2.2.2.2'', 5)])]) ''kept'' = Some []"
  using empty_active_set [OF valid_set_iter_remdups, of "[(''kept'', [])]" "''gone''"
          "[(''kept'', [(''1.1.1.1'', 3)]), (''gone'', [(''2.2.2.2'', 5)])]"]
        empty_active_set [OF valid_set_iter_remdups, of "[(''kept'', [])]" "''kept''"
          "[(''kept'', [(''1.1.1.1'', 3)]), (''gone'', [(''2.2.2.2'', 5)])]"]
  by simp

text \<open>
  The claim as the specification words it fails: the user below has an empty active set
  and a streak of 3 from before, and is still a key of the table after the update.
\<close>

theorem empty_active_set_counterexample:
  "map_of (update_ip_streaks remdups [(''user'', [])] [(''user'', [(''1.1.1.1'', 3)])]) ''user''
     = Some []"
  by (simp add: update_ip_streaks_def update_user_streaks_def getitem_streaks_def del_streak_def)



subsection \<open>The report messages of a cycle\<close>

lemma dispatched_append: "dispatched (xs @ ys) = dispatched xs @ dispatched ys"
  by (simp add: dispatched_def)

lemma dispatched_send_logs: "dispatched (map Send_logs ts) = ts"
  by (induction ts) (simp_all add: dispatched_def)

lemma dispatched_fold_step:
  "dispatched (snd (fold check_ip_used_step au acc)) = dispatched (snd acc)"
  by (induction au arbitrary: acc)
     (simp_all add: check_ip_used_step_def Let_def dispatched_append, simp add: dispatched_def)

lemma dispatched_check_ip_used: "dispatched (snd (check_ip_used au)) = []"
  using dispatched_fold_step [of au "([], [])"]
  by (simp add: check_ip_used_def split_def Let_def dispatched_append) (simp add: dispatched_def)

lemma dispatched_enforce:
  "dispatched (fst (enforce_limits dis ex sl g T)) = []"
proof (induction T)
  case Nil
  show ?case by (simp add: dispatched_def)
next
  case (Cons e T)
  obtain u m where e: "e = (u, m)" by (cases e)
  have d3: "dispatched [Logger_warning u n ks, Send_logs_warning u n ks, Disable_user u] = []"
    for n ks by (simp add: dispatched_def)
  have dp: "dispatched [Print msg] = []" for msg by (simp add: dispatched_def)
  show ?case
    using Cons.IH
    by (cases "dis u")
       (auto simp: e Let_def split_def dispatched_append d3 dp simp del: append.simps)
qed

lemma check_users_usage_dispatched:
  "dispatched (snd (snd (check_users_usage so dis cfg st))) =
   shorter_messages (report_messages
     (update_ip_streaks so (fst (check_ip_used (ACTIVE_USERS st))) (IP_STREAKS st)))"
  using dispatched_check_ip_used [of "ACTIVE_USERS st"]
    dispatched_enforce [of dis]
  by (auto simp: check_users_usage_def Let_def split_def dispatched_append dispatched_send_logs
      split: option.splits prod.splits)


lemma length_blocks:
  "length (concat (map (\<lambda>(user, ip_map). if ip_map = [] then [] else [format_block user ip_map]) xs))
     = length (filter (\<lambda>kv. snd kv \<noteq> []) xs)"
  by (induction xs) auto

lemma length_format_streak_messages:
  "length (format_streak_messages T) = length (filter (\<lambda>kv. snd kv \<noteq> []) T)"
proof -
  have "length (filter (\<lambda>kv. snd kv \<noteq> []) (sort_key (\<lambda>kv. - int (length (snd kv))) T))
        = length (sort_key (\<lambda>kv. - int (length (snd kv))) (filter (\<lambda>kv. snd kv \<noteq> []) T))"
    by (simp only: filter_sort)
  then show ?thesis
    by (simp add: format_streak_messages_def length_blocks)
qed

lemma range_from0_Suc:
  "range_from0 (Suc n) 50 = 0 # map (\<lambda>i. i + 50) (range_from0 (Suc n - 50) 50)"
proof -
  have k: "(Suc n + 50 - 1) div 50 = Suc (n div 50)" by arith
  have k': "(Suc n - 50 + 50 - 1) div 50 = n div 50" by arith
  have "[0..<Suc (n div 50)] = 0 # map Suc [0..<n div 50]"
    by (simp only: map_Suc_upt upt_conv_Cons [of 0 "Suc (n div 50)"] zero_less_Suc)
  then show ?thesis
    unfolding range_from0_def k k' by (simp add: comp_def)
qed

lemma message_slices_Nil: "message_slices [] = []"
  by (simp add: message_slices_def range_from0_def)

lemma message_slices_step:
  "ms \<noteq> [] \<Longrightarrow> message_slices ms = take 50 ms # message_slices (drop 50 ms)"
proof -
  assume "ms \<noteq> []"
  then obtain n where n: "length ms = Suc n" by (cases ms) auto
  have "map (\<lambda>i. take 50 (drop i ms)) (map (\<lambda>i. i + 50) xs)
        = map (\<lambda>i. take 50 (drop i (drop 50 ms))) xs" for xs
    by (induction xs) (simp_all add: add.commute)
  then show ?thesis
    by (simp add: message_slices_def n range_from0_Suc)
qed

lemma concat_message_slices: "concat (message_slices ms) = ms"
proof (induction "length ms" arbitrary: ms rule: less_induct)
  case less
  show ?case
  proof (cases "ms = []")
    case True then show ?thesis by (simp add: message_slices_Nil)
  next
    case False
    then have "length (drop 50 ms) < length ms" by (cases ms) auto
    then show ?thesis using less False by (simp add: message_slices_step)
  qed
qed

lemma lengths_message_slices:
  "map length (message_slices ms) =
     replicate (length ms div 50) 50 @ (if length ms mod 50 = 0 then [] else [length ms mod 50])"
proof (induction "length ms" arbitrary: ms rule: less_induct)
  case less
  show ?case
  proof (cases "ms = []")
    case True then show ?thesis by (simp add: message_slices_Nil)
  next
    case False
    then have lt: "length (drop 50 ms) < length ms" by (cases ms) auto
    have IH: "map length (message_slices (drop 50 ms)) =
       replicate (length (drop 50 ms) div 50) 50 @
         (if length (drop 50 ms) mod 50 = 0 then [] else [length (drop 50 ms) mod 50])"
      by (rule less [OF lt])
    show ?thesis
    proof (cases "50 \<le> length ms")
      case True
      then have d: "length ms div 50 = Suc ((length ms - 50) div 50)"
        and m: "length ms mod 50 = (length ms - 50) mod 50"
        by (simp_all add: le_div_geq le_mod_geq)
      show ?thesis using True IH by (simp add: message_slices_step [OF False] d m)
    next
      case False': False
      then have "drop 50 ms = []" by simp
      with False' False show ?thesis
        by (simp add: message_slices_step [OF False] message_slices_Nil)
    qed
  qed
qed

lemma length_message_slices: "length (message_slices ms) = (length ms + 49) div 50"
  by (simp add: message_slices_def range_from0_def)

lemma length_filter_alist:
  assumes "distinct (map fst xs)"
  shows "length (filter Q xs) = card {k. \<exists>v. map_of xs k = Some v \<and> Q (k, v)}"
proof -
  have d: "distinct (map fst (filter Q xs))" using assms by (rule distinct_map_filter)
  have "set (map fst (filter Q xs)) = {k. \<exists>v. map_of xs k = Some v \<and> Q (k, v)}"
    using assms by (auto simp: map_of_eq_Some_iff intro: rev_image_eqI)
  then have "card {k. \<exists>v. map_of xs k = Some v \<and> Q (k, v)} = length (map fst (filter Q xs))"
    using distinct_card [OF d] by simp
  then show ?thesis by simp
qed

lemma nonempty_entries:
  assumes so: "valid_set_iter so" and cur: "distinct (map fst cur)"
  shows "(\<exists>m. map_of (update_ip_streaks so cur T) u = Some m \<and> m \<noteq> []) =
         (\<exists>ips. map_of cur u = Some ips \<and> ips \<noteq> [])"
proof
  assume "\<exists>m. map_of (update_ip_streaks so cur T) u = Some m \<and> m \<noteq> []"
  then obtain m where m: "map_of (update_ip_streaks so cur T) u = Some m" "m \<noteq> []" by blast
  have "u \<in> set (map fst cur)"
    using m(1) update_ip_streaks_absent [of u cur so T] by auto
  then obtain ips where ips: "map_of cur u = Some ips"
    by (cases "map_of cur u") (auto simp: map_of_eq_None_iff)
  have e: "entry (update_ip_streaks so cur T) u = m" using m(1) by (simp add: entry_def)
  have "map_of m (fst (hd m)) = Some (snd (hd m))" using m(2) by (cases m) auto
  then obtain a v where "map_of m a = Some v" by blast
  then have "a \<in> set ips"
    using update_ip_streaks_entry [OF so cur ips, of T a] e by (simp split: if_splits)
  then show "\<exists>ips. map_of cur u = Some ips \<and> ips \<noteq> []" using ips by auto
next
  assume "\<exists>ips. map_of cur u = Some ips \<and> ips \<noteq> []"
  then obtain ips where ips: "map_of cur u = Some ips" "ips \<noteq> []" by blast
  then have "u \<in> set (map fst cur)" by (auto dest: map_of_SomeD intro: rev_image_eqI)
  then obtain m where m: "map_of (update_ip_streaks so cur T) u = Some m"
    using update_ip_streaks_present [of u cur so T] by auto
  have e: "entry (update_ip_streaks so cur T) u = m" using m by (simp add: entry_def)
  obtain a where "a \<in> set ips" using ips(2) by (cases ips) auto
  then have "map_of m a \<noteq> None"
    using update_ip_streaks_entry [OF so cur ips(1), of T a] e by simp
  then have "m \<noteq> []" by auto
  with m show "\<exists>m. map_of (update_ip_streaks so cur T) u = Some m \<and> m \<noteq> []" by simp
qed

lemma count_report_blocks:
  assumes so: "valid_set_iter so" and cur: "distinct (map fst cur)" and T: "distinct (map fst T)"
  shows "length (format_streak_messages (update_ip_streaks so cur T)) =
         length (filter (\<lambda>kv. snd kv \<noteq> []) cur)"
proof -
  have T': "distinct (map fst (update_ip_streaks so cur T))"
    using T by (rule update_ip_streaks_distinct)
  show ?thesis
    unfolding length_format_streak_messages
    by (simp add: length_filter_alist [OF T'] length_filter_alist [OF cur]
          nonempty_entries [OF so cur])
qed

lemma distinct_users_120: "distinct (map fst (ACTIVE_USERS state_120))"
proof -
  have "inj_on user_k A" for A
    by (rule inj_onI) (simp add: user_k_def replicate_eq_replicate [simplified])
  then show ?thesis
    by (simp add: state_120_def comp_def distinct_map)
qed

lemma blocks_120:
  "length (format_streak_messages
     (update_ip_streaks remdups (fst (check_ip_used (ACTIVE_USERS state_120)))
        (IP_STREAKS state_120))) = 120"
proof -
  let ?cur = "fst (check_ip_used (ACTIVE_USERS state_120))"
  have cur: "?cur = map (\<lambda>kv. (fst kv, dedup_first (ip (snd kv)))) (ACTIVE_USERS state_120)"
    by (rule check_ip_used_eq [OF distinct_users_120])
  have d: "distinct (map fst ?cur)"
    using distinct_users_120 by (simp add: cur comp_def)
  have n: "length (filter (\<lambda>kv. snd kv \<noteq> []) ?cur) = 120"
    unfolding cur by (simp add: state_120_def filter_map comp_def)
  have T: "distinct (map fst (IP_STREAKS state_120))" by (simp add: state_120_def)
  show ?thesis
    using count_report_blocks [OF valid_set_iter_remdups d T] n by simp
qed


lemma slices_121:
  assumes "length ms = 121"
  shows "map length (message_slices ms) = [50, 50, 21]"
proof -
  have r: "replicate 2 x = [x, x]" for x :: nat by (simp add: numeral_2_eq_2)
  show ?thesis unfolding lengths_message_slices assms by (simp add: r)
qed

lemma no_blocks_total:
  "format_streak_messages T = [] \<Longrightarrow> total_ips T = 0"
proof -
  assume "format_streak_messages T = []"
  then have "length (filter (\<lambda>kv. snd kv \<noteq> []) T) = 0"
    using length_format_streak_messages [of T] by simp
  then have "\<forall>kv \<in> set T. snd kv = []" by (simp add: filter_empty_conv)
  then show ?thesis unfolding total_ips_def by (induction T) auto
qed

text \<open>
  Claim C3, as the code has it. The messages of a cycle are the report blocks followed by
  the summary line. They are cut, in order, into slices of 50 (the last one holds the
  remainder), each slice is joined by a blank line and handed to \<^verbatim>\<open>send_logs\<close> in one
  call. The summary line counts as a message: 120 report blocks make 121 messages, sent
  in 3 calls of 50, 50 and 21 messages, the last being 20 report blocks and the summary
  line.
\<close>

theorem report_chunking:
  "(let T' = update_ip_streaks so (fst (check_ip_used (ACTIVE_USERS st))) (IP_STREAKS st);
        blocks = format_streak_messages T';
        messages = blocks @ [summary_line (total_ips T')];
        chunks = message_slices messages;
        sent = dispatched (snd (snd (check_users_usage so disable_user config_data st)))
    in sent = map (join [CHR 0x0A, CHR 0x0A]) chunks
       \<and> concat chunks = messages
       \<and> map length chunks =
           replicate (length messages div 50) 50 @
             (if length messages mod 50 = 0 then [] else [length messages mod 50])
       \<and> (length blocks = 120 \<longrightarrow> length sent = 3 \<and> map length chunks = [50, 50, 21]))"
proof -
  let ?T = "update_ip_streaks so (fst (check_ip_used (ACTIVE_USERS st))) (IP_STREAKS st)"
  let ?messages = "format_streak_messages ?T @ [summary_line (total_ips ?T)]"
  have sent: "dispatched (snd (snd (check_users_usage so disable_user config_data st))) =
      map (join [CHR 0x0A, CHR 0x0A]) (message_slices ?messages)"
    by (simp add: check_users_usage_dispatched shorter_messages_def report_messages_def)
  have lens: "map length (message_slices ?messages) =
      replicate (length ?messages div 50) 50 @
        (if length ?messages mod 50 = 0 then [] else [length ?messages mod 50])"
    by (rule lengths_message_slices)
  have "map length (message_slices ?messages) = [50, 50, 21]"
    if "length (format_streak_messages ?T) = 120"
    by (rule slices_121) (simp add: that)
  moreover have "length (message_slices ?messages) = 3"
    if "length (format_streak_messages ?T) = 120"
    using that by (simp add: length_message_slices)
  ultimately show ?thesis
    using sent lens by (simp add: Let_def concat_message_slices del: replicate.simps)
qed

theorem report_chunking_witness:
  "length (dispatched (snd (snd (check_users_usage remdups (\<lambda>u. Disabled) config_3 state_120)))) = 3
   \<and> map length (message_slices
        (format_streak_messages
           (update_ip_streaks remdups (fst (check_ip_used (ACTIVE_USERS state_120)))
              (IP_STREAKS state_120))
         @ [summary_line (total_ips
           (update_ip_streaks remdups (fst (check_ip_used (ACTIVE_USERS state_120)))
              (IP_STREAKS state_120)))])) = [50, 50, 21]"
  using report_chunking [of remdups state_120 "\<lambda>u. Disabled" config_3, unfolded Let_def]
    blocks_120
  by blast

text \<open>
  The claim as the specification words it fails: \<open>state_120\<close> produces exactly 120 report
  blocks, and the slices do not have the sizes 50, 50 and 20.
\<close>

theorem report_chunking_counterexample:
  "length (format_streak_messages
      (update_ip_streaks remdups (fst (check_ip_used (ACTIVE_USERS state_120)))
         (IP_STREAKS state_120))) = 120
   \<and> map length (message_slices (report_messages
      (update_ip_streaks remdups (fst (check_ip_used (ACTIVE_USERS state_120)))
         (IP_STREAKS state_120)))) \<noteq> [50, 50, 20]"
proof -
  let ?T = "update_ip_streaks remdups (fst (check_ip_used (ACTIVE_USERS state_120)))
         (IP_STREAKS state_120)"
  have "length (report_messages ?T) = 121"
    using blocks_120 by (simp add: report_messages_def)
  then have "map length (message_slices (report_messages ?T)) = [50, 50, 21]"
    by (rule slices_121)
  then show ?thesis using blocks_120 by simp
qed

lemma digits_value_snoc:
  "digits_value (s @ [c]) = digits_value s * 10 + (of_char c - 48)"
  by (simp add: digits_value_def)

lemma digit_char: "d < 10 \<Longrightarrow> (of_char (char_of (48 + d :: nat)) :: nat) - 48 = d"
  by simp

lemma digits_value_str_nat: "digits_value (str_nat n) = n"
proof (induction n rule: str_nat.induct)
  case (1 n)
  show ?case
  proof (cases "n < 10")
    case True
    then show ?thesis
      using digit_char [of n] by (subst str_nat.simps) (simp add: digits_value_def)
  next
    case False
    have "n mod 10 < 10" by simp
    then have "(of_char (char_of (48 + n mod 10)) :: nat) - 48 = n mod 10" by (rule digit_char)
    then show ?thesis
      using False 1 by (subst str_nat.simps) (simp add: digits_value_snoc)
  qed
qed

lemma total_ips_nonneg: "0 \<le> total_ips T"
  unfolding total_ips_def by (induction T) auto

lemma digits_value_total: "digits_value (str_int (total_ips T)) = nat (total_ips T)"
  using total_ips_nonneg [of T] by (simp add: str_int_def digits_value_str_nat)

lemma join_snoc:
  "join sep (xs @ [x]) = (if xs = [] then x else join sep xs @ sep @ x)"
  by (induction sep xs rule: join.induct) auto

lemma last_message_slices:
  "ms \<noteq> [] \<Longrightarrow> message_slices ms \<noteq> [] \<and> last (message_slices ms) \<noteq> []
     \<and> last (last (message_slices ms)) = last ms"
proof (induction "length ms" arbitrary: ms rule: less_induct)
  case less
  show ?case
  proof (cases "drop 50 ms = []")
    case True
    then have "take 50 ms = ms" by simp
    with True less.prems show ?thesis
      by (simp add: message_slices_step [OF less.prems] message_slices_Nil)
  next
    case False
    have lt: "length (drop 50 ms) < length ms" using less.prems by (cases ms) auto
    have "last (drop 50 ms) = last ms" using False by (simp add: last_drop)
    with less.hyps [OF lt False] show ?thesis
      by (simp add: message_slices_step [OF less.prems])
  qed
qed

lemma last_sent_suffix:
  "\<exists>front. last (map (join sep) (message_slices (blocks @ [line]))) = front @ line"
proof -
  let ?sl = "message_slices (blocks @ [line])"
  have l: "?sl \<noteq> []" "last ?sl \<noteq> []" "last (last ?sl) = line"
    using last_message_slices [of "blocks @ [line]"] by simp_all
  then have "last ?sl = butlast (last ?sl) @ [line]"
    using append_butlast_last_id [of "last ?sl"] by simp
  then have "join sep (last ?sl) =
      (if butlast (last ?sl) = [] then line else join sep (butlast (last ?sl)) @ sep @ line)"
    using join_snoc [of sep "butlast (last ?sl)" line] by simp
  then have "\<exists>front. join sep (last ?sl) = front @ line"
    by (cases "butlast (last ?sl) = []") auto
  then show ?thesis using l(1) by (simp add: last_map)
qed

lemma str_int_0: "str_int 0 = [CHR 0x30]"
  by code_simp

text \<open>
  Claim C10. Every cycle hands at least one text to \<^verbatim>\<open>send_logs\<close>. The messages of a
  cycle are the report blocks followed by the summary line, which is the source's literal
  (nine dashes, a line break, the Russian caption and \<^verbatim>\<open><b>\<close>), the decimal numeral of
  the total, and \<^verbatim>\<open></b>\<close>; the total is the sum over all users of the number of IPs in
  their streak entry, and reading the numeral back gives that sum. The last text sent
  ends with the summary line. When there is no report block, exactly one text is sent:
  the summary line alone, with the count 0.
\<close>

theorem summary_always_sent:
  "(let T' = update_ip_streaks so (fst (check_ip_used (ACTIVE_USERS st))) (IP_STREAKS st);
        total = sum_list (map (\<lambda>kv. int (length (snd kv))) T');
        line = [CHR 0x2D, CHR 0x2D, CHR 0x2D, CHR 0x2D, CHR 0x2D, CHR 0x2D, CHR 0x2D, CHR 0x2D,
                  CHR 0x2D, CHR 0x0A, CHR 0xD0, CHR 0x92, CHR 0xD1, CHR 0x81, CHR 0xD0, CHR 0xB5,
                  CHR 0xD0, CHR 0xB3, CHR 0xD0, CHR 0xBE, CHR 0x20, CHR 0xD0, CHR 0xB0, CHR 0xD0,
                  CHR 0xBA, CHR 0xD1, CHR 0x82, CHR 0xD0, CHR 0xB8, CHR 0xD0, CHR 0xB2, CHR 0xD0,
                  CHR 0xBD, CHR 0xD1, CHR 0x8B, CHR 0xD1, CHR 0x85, CHR 0x20, CHR 0x49, CHR 0x50,
                  CHR 0x3A, CHR 0x20, CHR 0x3C, CHR 0x62, CHR 0x3E]
                 @ str_int total @ ''</b>'';
        messages = format_streak_messages T' @ [line];
        sent = dispatched (snd (snd (check_users_usage so disable_user config_data st)))
    in sent = map (join [CHR 0x0A, CHR 0x0A]) (message_slices messages)
       \<and> sent \<noteq> []
       \<and> (\<exists>front. last sent = front @ line)
       \<and> 0 \<le> total \<and> digits_value (str_int total) = nat total
       \<and> (format_streak_messages T' = [] \<longrightarrow> sent = [line] \<and> total = 0))"
proof -
  let ?T = "update_ip_streaks so (fst (check_ip_used (ACTIVE_USERS st))) (IP_STREAKS st)"
  let ?line = "summary_line (total_ips ?T)"
  let ?messages = "format_streak_messages ?T @ [?line]"
  let ?sent = "dispatched (snd (snd (check_users_usage so disable_user config_data st)))"
  have line: "[CHR 0x2D, CHR 0x2D, CHR 0x2D, CHR 0x2D, CHR 0x2D, CHR 0x2D, CHR 0x2D, CHR 0x2D,
                  CHR 0x2D, CHR 0x0A, CHR 0xD0, CHR 0x92, CHR 0xD1, CHR 0x81, CHR 0xD0, CHR 0xB5,
                  CHR 0xD0, CHR 0xB3, CHR 0xD0, CHR 0xBE, CHR 0x20, CHR 0xD0, CHR 0xB0, CHR 0xD0,
                  CHR 0xBA, CHR 0xD1, CHR 0x82, CHR 0xD0, CHR 0xB8, CHR 0xD0, CHR 0xB2, CHR 0xD0,
                  CHR 0xBD, CHR 0xD1, CHR 0x8B, CHR 0xD1, CHR 0x85, CHR 0x20, CHR 0x49, CHR 0x50,
                  CHR 0x3A, CHR 0x20, CHR 0x3C, CHR 0x62, CHR 0x3E]
                 @ str_int (total_ips ?T) @ ''</b>'' = ?line"
    by (simp add: summary_line_def lit_summary_def)
  have sent: "?sent = map (join [CHR 0x0A, CHR 0x0A]) (message_slices ?messages)"
    by (simp add: check_users_usage_dispatched shorter_messages_def report_messages_def)
  have "0 < length (message_slices ?messages)"
    by (simp add: length_message_slices)
  then have ne: "?sent \<noteq> []" unfolding sent by simp
  have suffix: "\<exists>front. last ?sent = front @ ?line"
    unfolding sent by (rule last_sent_suffix)
  have only: "?sent = [?line] \<and> total_ips ?T = 0"
    if "format_streak_messages ?T = []"
    unfolding sent using that no_blocks_total [OF that]
    by (simp add: message_slices_step message_slices_Nil)
  show ?thesis
    unfolding Let_def total_ips_def [symmetric] line
    using sent ne suffix only total_ips_nonneg [of ?T] digits_value_total [of ?T]
    by blast
qed

theorem summary_always_sent_witness:
  "dispatched (snd (snd (check_users_usage remdups (\<lambda>u. Disabled) config_3
       \<lparr>ACTIVE_USERS = [], IP_STREAKS = [(''old'', [(''1.1.1.1'', 2)])]\<rparr>)))
   = [[CHR 0x2D, CHR 0x2D, CHR 0x2D, CHR 0x2D, CHR 0x2D, CHR 0x2D, CHR 0x2D, CHR 0x2D,
      CHR 0x2D, CHR 0x0A, CHR 0xD0, CHR 0x92, CHR 0xD1, CHR 0x81, CHR 0xD0, CHR 0xB5,
      CHR 0xD0, CHR 0xB3, CHR 0xD0, CHR 0xBE, CHR 0x20, CHR 0xD0, CHR 0xB0, CHR 0xD0,
      CHR 0xBA, CHR 0xD1, CHR 0x82, CHR 0xD0, CHR 0xB8, CHR 0xD0, CHR 0xB2, CHR 0xD0,
      CHR 0xBD, CHR 0xD1, CHR 0x8B, CHR 0xD1, CHR 0x85, CHR 0x20, CHR 0x49, CHR 0x50,
      CHR 0x3A, CHR 0x20, CHR 0x3C, CHR 0x62, CHR 0x3E, CHR 0x30, CHR 0x3C, CHR 0x2F,
      CHR 0x62, CHR 0x3E]]"
proof -
  let ?st = "\<lparr>ACTIVE_USERS = [], IP_STREAKS = [(''old'', [(''1.1.1.1'', 2)])]\<rparr>"
  let ?T = "update_ip_streaks remdups (fst (check_ip_used (ACTIVE_USERS ?st))) (IP_STREAKS ?st)"
  have e: "format_streak_messages ?T = []"
    by (simp add: update_ip_streaks_def check_ip_used_def format_streak_messages_def)
  have "format_streak_messages ?T = [] \<longrightarrow>
      dispatched (snd (snd (check_users_usage remdups (\<lambda>u. Disabled) config_3 ?st)))
        = [[CHR 0x2D, CHR 0x2D, CHR 0x2D, CHR 0x2D, CHR 0x2D, CHR 0x2D, CHR 0x2D, CHR 0x2D,
                  CHR 0x2D, CHR 0x0A, CHR 0xD0, CHR 0x92, CHR 0xD1, CHR 0x81, CHR 0xD0, CHR 0xB5,
                  CHR 0xD0, CHR 0xB3, CHR 0xD0, CHR 0xBE, CHR 0x20, CHR 0xD0, CHR 0xB0, CHR 0xD0,
                  CHR 0xBA, CHR 0xD1, CHR 0x82, CHR 0xD0, CHR 0xB8, CHR 0xD0, CHR 0xB2, CHR 0xD0,
                  CHR 0xBD, CHR 0xD1, CHR 0x8B, CHR 0xD1, CHR 0x85, CHR 0x20, CHR 0x49, CHR 0x50,
                  CHR 0x3A, CHR 0x20, CHR 0x3C, CHR 0x62, CHR 0x3E]
                 @ str_int (sum_list (map (\<lambda>kv. int (length (snd kv))) ?T)) @ ''</b>'']
      \<and> sum_list (map (\<lambda>kv. int (length (snd kv))) ?T) = 0"
    using summary_always_sent [of remdups ?st "\<lambda>u. Disabled" config_3, unfolded Let_def]
    by blast
  with e have "dispatched (snd (snd (check_users_usage remdups (\<lambda>u. Disabled) config_3 ?st)))
        = [[CHR 0x2D, CHR 0x2D, CHR 0x2D, CHR 0x2D, CHR 0x2D, CHR 0x2D, CHR 0x2D, CHR 0x2D,
                  CHR 0x2D, CHR 0x0A, CHR 0xD0, CHR 0x92, CHR 0xD1, CHR 0x81, CHR 0xD0, CHR 0xB5,
                  CHR 0xD0, CHR 0xB3, CHR 0xD0, CHR 0xBE, CHR 0x20, CHR 0xD0, CHR 0xB0, CHR 0xD0,
                  CHR 0xBA, CHR 0xD1, CHR 0x82, CHR 0xD0, CHR 0xB8, CHR 0xD0, CHR 0xB2, CHR 0xD0,
                  CHR 0xBD, CHR 0xD1, CHR 0x8B, CHR 0xD1, CHR 0x85, CHR 0x20, CHR 0x49, CHR 0x50,
                  CHR 0x3A, CHR 0x20, CHR 0x3C, CHR 0x62, CHR 0x3E]
                 @ str_int 0 @ ''</b>'']"
    by simp
  then show ?thesis by (simp add: str_int_0)
qed

subsection \<open>The enforcement loop\<close>

lemma enforce_no_error:
  "\<forall>v. \<not> propagates (dis v) \<Longrightarrow> snd (enforce_limits dis ex sl g T) = None"
proof (induction T)
  case Nil show ?case by simp
next
  case (Cons e T)
  obtain u m where e: "e = (u, m)" by (cases e)
  have "\<not> propagates (dis u)" using Cons.prems by simp
  then show ?case using Cons by (cases "dis u") (auto simp: e Let_def split_def)
qed

lemma enforce_flag_origin:
  "e \<in> set (fst (enforce_limits dis ex sl g T)) \<Longrightarrow> flags_user u e \<Longrightarrow>
   \<exists>m. (u, m) \<in> set T \<and> u \<notin> set ex
      \<and> (case map_of sl u of Some l \<Rightarrow> l | None \<Rightarrow> g) < int (length m)"
proof (induction T)
  case Nil then show ?case by simp
next
  case (Cons p T)
  obtain v m where p: "p = (v, m)" by (cases p)
  show ?case
  proof (cases "e \<in> set (fst (enforce_limits dis ex sl g T))")
    case True
    then show ?thesis using Cons.IH Cons.prems(2) by auto
  next
    case False
    with Cons.prems have
      "v \<notin> set ex \<and> (case map_of sl v of Some l \<Rightarrow> l | None \<Rightarrow> g) < int (length m) \<and> v = u"
      by (cases "dis v") (auto simp: p Let_def split_def split: if_splits)
    then show ?thesis by (auto simp: p)
  qed
qed

lemma enforce_flagged:
  assumes "\<forall>v. \<not> propagates (dis v)"
  shows "(u, m) \<in> set T \<Longrightarrow> u \<notin> set ex \<Longrightarrow>
     (case map_of sl u of Some l \<Rightarrow> l | None \<Rightarrow> g) < int (length m) \<Longrightarrow>
     Logger_warning u (int (length m)) (map fst m) \<in> set (fst (enforce_limits dis ex sl g T))
     \<and> Send_logs_warning u (int (length m)) (map fst m) \<in> set (fst (enforce_limits dis ex sl g T))
     \<and> Disable_user u \<in> set (fst (enforce_limits dis ex sl g T))"
proof (induction T)
  case Nil then show ?case by simp
next
  case (Cons p T)
  obtain v k where p: "p = (v, k)" by (cases p)
  have np: "\<not> propagates (dis v)" using assms by simp
  show ?case
  proof (cases "p = (u, m)")
    case True
    with Cons.prems np show ?thesis
      by (cases "dis u") (auto simp: Let_def split_def)
  next
    case False
    with Cons.prems have "(u, m) \<in> set T" by simp
    from Cons.IH [OF this Cons.prems(2,3)] np show ?thesis
      by (cases "dis v") (auto simp: p Let_def split_def)
  qed
qed

lemma flags_check_ip_used_fold:
  "\<forall>e \<in> set (snd acc). \<not> flags_user u e \<Longrightarrow>
   \<forall>e \<in> set (snd (fold check_ip_used_step au acc)). \<not> flags_user u e"
proof (induction au arbitrary: acc)
  case Nil then show ?case by simp
next
  case (Cons a au)
  have "\<forall>e \<in> set (snd (check_ip_used_step a acc)). \<not> flags_user u e"
    using Cons.prems by (simp add: check_ip_used_step_def Let_def)
  then show ?case using Cons.IH by simp
qed

lemma flags_check_ip_used: "e \<in> set (snd (check_ip_used au)) \<Longrightarrow> \<not> flags_user u e"
  using flags_check_ip_used_fold [of "([], [])" u au]
  by (auto simp: check_ip_used_def split_def Let_def)

lemma flags_send_logs: "e \<in> set (map Send_logs ts) \<Longrightarrow> \<not> flags_user u e"
  by auto

lemma cycle_flag_origin:
  assumes "e \<in> set (snd (snd (check_users_usage so dis cfg st)))" "flags_user u e"
  shows "\<exists>g. GENERAL_LIMIT cfg = Some g \<and>
     e \<in> set (fst (enforce_limits dis
        (case EXCEPT_USERS cfg of Some l \<Rightarrow> l | None \<Rightarrow> [])
        (case SPECIAL_LIMIT cfg of Some d \<Rightarrow> d | None \<Rightarrow> []) g
        (update_ip_streaks so (fst (check_ip_used (ACTIVE_USERS st))) (IP_STREAKS st))))"
proof (cases "GENERAL_LIMIT cfg")
  case None
  with assms show ?thesis
    using flags_check_ip_used [of e "ACTIVE_USERS st" u]
    by (auto simp: check_users_usage_def Let_def split_def)
next
  case (Some g)
  with assms show ?thesis
    using flags_check_ip_used [of e "ACTIVE_USERS st" u]
    by (auto simp: check_users_usage_def Let_def split_def split: option.splits)
qed

lemma cycle_events:
  assumes "GENERAL_LIMIT cfg = Some g" "\<forall>v. \<not> propagates (dis v)"
  shows "check_users_usage so dis cfg st =
     (None,
      \<lparr>ACTIVE_USERS = [],
       IP_STREAKS = update_ip_streaks so (fst (check_ip_used (ACTIVE_USERS st))) (IP_STREAKS st)\<rparr>,
      snd (check_ip_used (ACTIVE_USERS st))
      @ map Send_logs (shorter_messages (report_messages
          (update_ip_streaks so (fst (check_ip_used (ACTIVE_USERS st))) (IP_STREAKS st))))
      @ fst (enforce_limits dis
        (case EXCEPT_USERS cfg of Some l \<Rightarrow> l | None \<Rightarrow> [])
        (case SPECIAL_LIMIT cfg of Some d \<Rightarrow> d | None \<Rightarrow> []) g
        (update_ip_streaks so (fst (check_ip_used (ACTIVE_USERS st))) (IP_STREAKS st))))"
  using enforce_no_error [OF assms(2)] assms(1)
  by (cases st) (auto simp: check_users_usage_def Let_def split_def split: option.splits prod.splits)


subsection \<open>Well-formed tables\<close>

lemma wf_streaks_entry: "wf_streaks T \<Longrightarrow> distinct (map fst (entry T u))"
proof (cases "map_of T u")
  case None then show ?thesis by (simp add: entry_def)
next
  case (Some m)
  assume "wf_streaks T"
  moreover have "(u, m) \<in> set T" using Some by (rule map_of_SomeD)
  ultimately have "distinct (map fst m)" by (auto simp: wf_streaks_def list_all_iff)
  with Some show ?thesis by (simp add: entry_def)
qed

lemma inner_incr:
  "distinct (map fst (entry T u)) \<Longrightarrow> distinct (map fst (entry (incr_streak v a T) u))"
proof (cases "u = v")
  case True
  assume "distinct (map fst (entry T u))"
  with True show ?thesis by (simp add: entry_incr_same distinct_update)
next
  case False
  then have "entry (incr_streak v a T) u = entry T u"
    by (intro entry_cong entry_incr_other)
  moreover assume "distinct (map fst (entry T u))"
  ultimately show ?thesis by simp
qed

lemma inner_del:
  "distinct (map fst (entry T u)) \<Longrightarrow> distinct (map fst (entry (del_streak v a T) u))"
proof (cases "u = v")
  case True
  assume "distinct (map fst (entry T u))"
  with True show ?thesis by (simp add: entry_del_same distinct_delete)
next
  case False
  then have "entry (del_streak v a T) u = entry T u"
    by (intro entry_cong) (simp add: del_streak_map_of)
  moreover assume "distinct (map fst (entry T u))"
  ultimately show ?thesis by simp
qed

lemma inner_getitem: "entry (snd (getitem_streaks T v)) u = entry T u"
proof (cases "u = v")
  case True then show ?thesis by (simp add: entry_getitem_snd)
next
  case False
  then show ?thesis by (intro entry_cong) (simp add: getitem_snd_map_of)
qed

lemma inner_fold_incr:
  "distinct (map fst (entry T u)) \<Longrightarrow> distinct (map fst (entry (fold (incr_streak v) as T) u))"
  by (induction as arbitrary: T) (simp_all add: inner_incr)

lemma inner_fold_del:
  "distinct (map fst (entry T u)) \<Longrightarrow> distinct (map fst (entry (fold (del_streak v) as T) u))"
  by (induction as arbitrary: T) (simp_all add: inner_del)

lemma inner_update_user:
  assumes "distinct (map fst (entry T u))"
  shows "distinct (map fst (entry (update_user_streaks so v ips T) u))"
proof -
  let ?T1 = "fold (incr_streak v) (so ips) T"
  have "distinct (map fst (entry (snd (getitem_streaks ?T1 v)) u))"
    using inner_fold_incr [OF assms] by (simp add: inner_getitem)
  then show ?thesis
    by (cases "getitem_streaks ?T1 v") (simp add: update_user_streaks_def inner_fold_del)
qed

lemma inner_fold_users:
  "distinct (map fst (entry T u)) \<Longrightarrow>
   distinct (map fst (entry (fold (\<lambda>(user, ips). update_user_streaks so user ips) cur T) u))"
  by (induction cur arbitrary: T) (auto simp: inner_update_user)

lemma inner_fold_delete:
  "distinct (map fst (entry T u)) \<Longrightarrow> distinct (map fst (entry (fold AList.delete ks T) u))"
  by (simp add: entry_def fold_delete_map_of split: option.splits)

lemma inner_update_ip_streaks:
  "distinct (map fst (entry T u)) \<Longrightarrow>
   distinct (map fst (entry (update_ip_streaks so cur T) u))"
  by (simp add: update_ip_streaks_def Let_def inner_fold_delete inner_fold_users)

lemma wf_update_ip_streaks:
  assumes "wf_streaks T"
  shows "wf_streaks (update_ip_streaks so cur T)"
proof -
  let ?T = "update_ip_streaks so cur T"
  have d: "distinct (map fst ?T)"
    using assms by (simp add: wf_streaks_def update_ip_streaks_distinct)
  have "distinct (map fst m)" if "(u, m) \<in> set ?T" for u m
  proof -
    have "map_of ?T u = Some m" using d that by simp
    then have "entry ?T u = m" by (simp add: entry_def)
    then show ?thesis
      using inner_update_ip_streaks [OF wf_streaks_entry [OF assms, of u], of so cur] by simp
  qed
  with d show ?thesis by (auto simp: wf_streaks_def list_all_iff)
qed

lemma keys_entry_update:
  assumes "valid_set_iter so" "distinct (map fst cur)" "map_of cur u = Some ips"
  shows "set (map fst (entry (update_ip_streaks so cur T) u)) = set ips"
proof -
  have "a \<in> set (map fst (entry (update_ip_streaks so cur T) u)) \<longleftrightarrow> a \<in> set ips" for a
    using update_ip_streaks_entry [OF assms, of T a]
      map_of_eq_None_iff [of "entry (update_ip_streaks so cur T) u" a]
    by (auto split: if_splits)
  then show ?thesis by blast
qed

lemma count_entry_update:
  assumes "valid_set_iter so" "distinct (map fst cur)" "map_of cur u = Some ips" "wf_streaks T"
  shows "length (entry (update_ip_streaks so cur T) u) = card (set ips)"
proof -
  have "distinct (map fst (entry (update_ip_streaks so cur T) u))"
    by (rule inner_update_ip_streaks [OF wf_streaks_entry [OF assms(4)]])
  then have "card (set (map fst (entry (update_ip_streaks so cur T) u)))
     = length (map fst (entry (update_ip_streaks so cur T) u))"
    by (rule distinct_card)
  then show ?thesis using keys_entry_update [OF assms(1-3), of T] by simp
qed

lemma check_ip_used_keys:
  "distinct (map fst au) \<Longrightarrow> map fst (fst (check_ip_used au)) = map fst au"
  by (simp add: check_ip_used_eq comp_def)

lemma map_of_map_values:
  "map_of (map (\<lambda>kv. (fst kv, f (snd kv))) xs) k = map_option f (map_of xs k)"
  by (induction xs) auto

lemma check_ip_used_lookup:
  "distinct (map fst au) \<Longrightarrow> map_of au u = Some data \<Longrightarrow>
   map_of (fst (check_ip_used au)) u = Some (dedup_first (ip data))"
  using map_of_map_values [of "\<lambda>d. dedup_first (ip d)" au u]
  by (simp add: check_ip_used_eq)


subsection \<open>Limits\<close>

lemma table_user_in_snapshot:
  assumes "distinct (map fst au)"
    and "map_of (update_ip_streaks so (fst (check_ip_used au)) T) u = Some m"
  shows "\<exists>data. map_of au u = Some data"
proof -
  have "u \<in> set (map fst (fst (check_ip_used au)))"
    using assms(2) update_ip_streaks_absent [of u "fst (check_ip_used au)" so T] by auto
  then have "u \<in> set (map fst au)" using assms(1) by (simp add: check_ip_used_keys)
  then show ?thesis by (cases "map_of au u") (auto simp: map_of_eq_None_iff)
qed

text \<open>
  Claim C4. Take a cycle whose configuration has a general limit and in which the disable
  action raises nothing but value errors. For every user with an entry in the streak
  table who is not exempt, the number of IPs in the entry is the number of distinct IPs
  the snapshot has for that user; the effective limit is the user's override in
  \<^verbatim>\<open>SPECIAL_LIMIT\<close> when there is one and \<^verbatim>\<open>GENERAL_LIMIT\<close> otherwise; when the count
  is strictly greater than the effective limit the warning is logged, the notification
  is sent with the user's name, the count and the IPs, and the disable action is called;
  otherwise no event of the cycle flags the user.
\<close>

theorem limit_evaluation:
  assumes so: "valid_set_iter so"
    and wf: "wf_streaks (IP_STREAKS st)"
    and au: "distinct (map fst (ACTIVE_USERS st))"
    and g: "GENERAL_LIMIT config_data = Some limit_number"
    and np: "\<forall>v. \<not> propagates (disable_user v)"
    and inT: "map_of (update_ip_streaks so (fst (check_ip_used (ACTIVE_USERS st))) (IP_STREAKS st))
                user_name = Some ip_map"
    and nex: "user_name \<notin> set (case EXCEPT_USERS config_data of Some l \<Rightarrow> l | None \<Rightarrow> [])"
  shows "(let evs = snd (snd (check_users_usage so disable_user config_data st));
              special_limit = (case SPECIAL_LIMIT config_data of Some d \<Rightarrow> d | None \<Rightarrow> []);
              effective_limit =
                (case map_of special_limit user_name of Some l \<Rightarrow> l | None \<Rightarrow> limit_number);
              active_ip_count = int (length ip_map)
          in (\<exists>data. map_of (ACTIVE_USERS st) user_name = Some data
                \<and> active_ip_count = int (card (set (ip data))))
           \<and> (effective_limit < active_ip_count \<longrightarrow>
                Logger_warning user_name active_ip_count (map fst ip_map) \<in> set evs
                \<and> Send_logs_warning user_name active_ip_count (map fst ip_map) \<in> set evs
                \<and> Disable_user user_name \<in> set evs)
           \<and> (\<not> effective_limit < active_ip_count \<longrightarrow>
                (\<forall>e \<in> set evs. \<not> flags_user user_name e)))"
proof -
  let ?cur = "fst (check_ip_used (ACTIVE_USERS st))"
  let ?T = "update_ip_streaks so ?cur (IP_STREAKS st)"
  let ?ex = "case EXCEPT_USERS config_data of Some l \<Rightarrow> l | None \<Rightarrow> []"
  let ?sl = "case SPECIAL_LIMIT config_data of Some d \<Rightarrow> d | None \<Rightarrow> []"
  let ?L = "case map_of ?sl user_name of Some l \<Rightarrow> l | None \<Rightarrow> limit_number"
  let ?evs = "snd (snd (check_users_usage so disable_user config_data st))"
  let ?evs3 = "fst (enforce_limits disable_user ?ex ?sl limit_number ?T)"
  have dcur: "distinct (map fst ?cur)" using au by (simp add: check_ip_used_keys)
  have dT: "distinct (map fst ?T)"
    using wf by (simp add: wf_streaks_def update_ip_streaks_distinct)
  have mem: "(user_name, ip_map) \<in> set ?T" using inT by (rule map_of_SomeD)
  obtain data where data: "map_of (ACTIVE_USERS st) user_name = Some data"
    using table_user_in_snapshot [OF au inT] by blast
  have cur: "map_of ?cur user_name = Some (dedup_first (ip data))"
    by (rule check_ip_used_lookup [OF au data])
  have "entry ?T user_name = ip_map" using inT by (simp add: entry_def)
  then have count: "length ip_map = card (set (ip data))"
    using count_entry_update [OF so dcur cur wf] by (simp add: set_dedup_first)
  have evs: "set ?evs3 \<subseteq> set ?evs"
    by (auto simp: cycle_events [OF g np])
  have pos: "Logger_warning user_name (int (length ip_map)) (map fst ip_map) \<in> set ?evs
      \<and> Send_logs_warning user_name (int (length ip_map)) (map fst ip_map) \<in> set ?evs
      \<and> Disable_user user_name \<in> set ?evs"
    if "?L < int (length ip_map)"
    using enforce_flagged [OF np mem nex that] evs by blast
  have neg: "\<not> flags_user user_name e" if "\<not> ?L < int (length ip_map)" "e \<in> set ?evs" for e
  proof
    assume f: "flags_user user_name e"
    from cycle_flag_origin [OF that(2) f] g have "e \<in> set ?evs3" by simp
    from enforce_flag_origin [OF this f] obtain m where
      m: "(user_name, m) \<in> set ?T" "?L < int (length m)" by blast
    have "m = ip_map" using dT m(1) inT by simp
    with m(2) that(1) show False by simp
  qed
  have c1: "\<exists>data. map_of (ACTIVE_USERS st) user_name = Some data
      \<and> int (length ip_map) = int (card (set (ip data)))"
    using data count by simp
  show ?thesis
    unfolding Let_def using c1 pos neg by blast
qed

lemma table_ab:
  "update_ip_streaks remdups (fst (check_ip_used (ACTIVE_USERS state_ab))) (IP_STREAKS state_ab)
   = [(''alice'', [(''10.0.0.1'', 1), (''10.0.0.2'', 1), (''10.0.0.3'', 1), (''10.0.0.4'', 1)]),
      (''bob'', [(''10.0.0.1'', 1), (''10.0.0.2'', 1), (''10.0.0.3'', 1), (''10.0.0.4'', 1)])]"
  by code_simp

text \<open>
  With a general limit of 3 and an override of 5 for \<^verbatim>\<open>alice\<close>: \<^verbatim>\<open>alice\<close> with 4
  distinct active IPs is not flagged, \<^verbatim>\<open>bob\<close> with 4 is.
\<close>

theorem limit_evaluation_witness:
  "filter (flags_user ''alice'')
      (snd (snd (check_users_usage remdups (\<lambda>v. Disabled) config_ab state_ab))) = []
   \<and> Logger_warning ''bob'' 4 [''10.0.0.1'', ''10.0.0.2'', ''10.0.0.3'', ''10.0.0.4'']
        \<in> set (snd (snd (check_users_usage remdups (\<lambda>v. Disabled) config_ab state_ab)))
   \<and> Send_logs_warning ''bob'' 4 [''10.0.0.1'', ''10.0.0.2'', ''10.0.0.3'', ''10.0.0.4'']
        \<in> set (snd (snd (check_users_usage remdups (\<lambda>v. Disabled) config_ab state_ab)))
   \<and> Disable_user ''bob''
        \<in> set (snd (snd (check_users_usage remdups (\<lambda>v. Disabled) config_ab state_ab)))"
proof -
  have wf: "wf_streaks (IP_STREAKS state_ab)" by (simp add: state_ab_def wf_streaks_def)
  have au: "distinct (map fst (ACTIVE_USERS state_ab))" by (simp add: state_ab_def)
  have g: "GENERAL_LIMIT config_ab = Some 3" by (simp add: config_ab_def)
  have np: "\<forall>v. \<not> propagates ((\<lambda>v. Disabled) v)" by simp
  have alice: "map_of (update_ip_streaks remdups (fst (check_ip_used (ACTIVE_USERS state_ab)))
       (IP_STREAKS state_ab)) ''alice''
     = Some [(''10.0.0.1'', 1), (''10.0.0.2'', 1), (''10.0.0.3'', 1), (''10.0.0.4'', 1)]"
    by (simp add: table_ab)
  have bob: "map_of (update_ip_streaks remdups (fst (check_ip_used (ACTIVE_USERS state_ab)))
       (IP_STREAKS state_ab)) ''bob''
     = Some [(''10.0.0.1'', 1), (''10.0.0.2'', 1), (''10.0.0.3'', 1), (''10.0.0.4'', 1)]"
    by (simp add: table_ab)
  have nex: "u \<notin> set (case EXCEPT_USERS config_ab of Some l \<Rightarrow> l | None \<Rightarrow> [])" for u
    by (simp add: config_ab_def)
  show ?thesis
    using limit_evaluation [OF valid_set_iter_remdups wf au g np alice nex]
      limit_evaluation [OF valid_set_iter_remdups wf au g np bob nex]
    by (simp add: Let_def config_ab_def filter_empty_conv)
qed


subsection \<open>Exempt users\<close>

lemma cycle_exempt:
  assumes "u \<in> set (case EXCEPT_USERS cfg of Some l \<Rightarrow> l | None \<Rightarrow> [])"
    and "e \<in> set (snd (snd (check_users_usage so dis cfg st)))"
  shows "\<not> flags_user u e"
proof
  assume f: "flags_user u e"
  from cycle_flag_origin [OF assms(2) f] obtain g where
    "e \<in> set (fst (enforce_limits dis
        (case EXCEPT_USERS cfg of Some l \<Rightarrow> l | None \<Rightarrow> [])
        (case SPECIAL_LIMIT cfg of Some d \<Rightarrow> d | None \<Rightarrow> []) g
        (update_ip_streaks so (fst (check_ip_used (ACTIVE_USERS st))) (IP_STREAKS st))))"
    by blast
  from enforce_flag_origin [OF this f] assms(1) show False by blast
qed

text \<open>
  Claim C5. Over any run of cycles, from any state, with any configuration, snapshot and
  behaviour of the disable action in each cycle: a user who is in \<^verbatim>\<open>EXCEPT_USERS\<close> in
  each cycle's configuration is flagged by no event of the run, and the disable action is
  never called for that user, whatever the number of the user's active IPs.
\<close>

theorem exempt_never_flagged:
  assumes "\<forall>c \<in> set cycles.
     user_name \<in> set (case EXCEPT_USERS (cycle_config c) of Some l \<Rightarrow> l | None \<Rightarrow> [])"
  shows "(\<forall>e \<in> set (snd (snd (run_check_users_usage so cycles st))). \<not> flags_user user_name e)
     \<and> Disable_user user_name \<notin> set (snd (snd (run_check_users_usage so cycles st)))"
proof -
  have "\<forall>e \<in> set (snd (snd (run_check_users_usage so cycles st))). \<not> flags_user user_name e"
    using assms
  proof (induction cycles arbitrary: st)
    case Nil
    show ?case by simp
  next
    case (Cons c cs)
    let ?r = "check_users_usage so (panel c) (cycle_config c) (st\<lparr>ACTIVE_USERS := polled c\<rparr>)"
    have ex: "user_name \<in> set (case EXCEPT_USERS (cycle_config c) of Some l \<Rightarrow> l | None \<Rightarrow> [])"
      using Cons.prems by simp
    have first: "\<forall>e \<in> set (snd (snd ?r)). \<not> flags_user user_name e"
      using cycle_exempt [OF ex] by blast
    have rest: "\<forall>e \<in> set (snd (snd (run_check_users_usage so cs st'))). \<not> flags_user user_name e"
      for st' using Cons.IH Cons.prems by simp
    obtain err st1 evs where r: "?r = (err, st1, evs)" by (cases ?r)
    obtain err2 st2 evs2 where r2: "run_check_users_usage so cs st1 = (err2, st2, evs2)"
      by (cases "run_check_users_usage so cs st1")
    show ?case
      using first rest [of st1] r r2
      by (auto split: option.splits)
  qed
  moreover have "flags_user user_name (Disable_user user_name)" by simp
  ultimately show ?thesis by blast
qed

theorem exempt_never_flagged_witness:
  "filter (flags_user ''eve'') (snd (snd (run_check_users_usage remdups [cycle_eve, cycle_eve]
        \<lparr>ACTIVE_USERS = [], IP_STREAKS = []\<rparr>))) = []
   \<and> Disable_user ''eve'' \<notin> set (snd (snd (run_check_users_usage remdups [cycle_eve, cycle_eve]
        \<lparr>ACTIVE_USERS = [], IP_STREAKS = []\<rparr>)))"
  using exempt_never_flagged [of "[cycle_eve, cycle_eve]" "''eve''" remdups
      "\<lparr>ACTIVE_USERS = [], IP_STREAKS = []\<rparr>"]
  by (simp add: cycle_eve_def config_eve_def filter_empty_conv)

subsection \<open>Failures of the disable action\<close>

lemma info_fold_step:
  "\<forall>e \<in> set (snd acc). \<not> is_print e \<Longrightarrow>
   \<forall>e \<in> set (snd (fold check_ip_used_step au acc)). \<not> is_print e"
proof (induction au arbitrary: acc)
  case Nil then show ?case by simp
next
  case (Cons a au)
  have "\<forall>e \<in> set (snd (check_ip_used_step a acc)). \<not> is_print e"
    using Cons.prems by (simp add: check_ip_used_step_def Let_def)
  then show ?case using Cons.IH by simp
qed

lemma no_print_check_ip_used: "e \<in> set (snd (check_ip_used au)) \<Longrightarrow> \<not> is_print e"
  using info_fold_step [of "([], [])" au]
  by (auto simp: check_ip_used_def split_def Let_def)

lemma filter_print_prefix:
  "filter (\<lambda>e. \<not> is_print e) (snd (check_ip_used au) @ map Send_logs ts @ evs)
   = snd (check_ip_used au) @ map Send_logs ts @ filter (\<lambda>e. \<not> is_print e) evs"
proof -
  have "filter (\<lambda>e. \<not> is_print e) (snd (check_ip_used au)) = snd (check_ip_used au)"
    using no_print_check_ip_used by (simp add: filter_id_conv)
  moreover have "filter (\<lambda>e. \<not> is_print e) (map Send_logs ts) = map Send_logs ts"
    by (induction ts) simp_all
  ultimately show ?thesis by simp
qed

lemma filter_disable_prefix:
  "filter (\<lambda>e. e = Disable_user v) (snd (check_ip_used au) @ map Send_logs ts @ evs)
   = filter (\<lambda>e. e = Disable_user v) evs"
proof -
  have "filter (\<lambda>e. e = Disable_user v) (snd (check_ip_used au)) = []"
    using flags_check_ip_used [of "Disable_user v" au v] by (auto simp: filter_empty_conv)
  moreover have "filter (\<lambda>e. e = Disable_user v) (map Send_logs ts) = []"
    by (induction ts) simp_all
  ultimately show ?thesis by simp
qed

lemma enforce_filter_print:
  "\<forall>v. \<not> propagates (dis v) \<Longrightarrow>
   filter (\<lambda>e. \<not> is_print e) (fst (enforce_limits dis ex sl g T))
   = fst (enforce_limits (\<lambda>v. Disabled) ex sl g T)"
proof (induction T)
  case Nil show ?case by simp
next
  case (Cons p T)
  obtain u m where p: "p = (u, m)" by (cases p)
  have "\<not> propagates (dis u)" using Cons.prems by simp
  then show ?case
    using Cons by (cases "dis u") (auto simp: p Let_def split_def)
qed

lemma enforce_no_key:
  "v \<notin> set (map fst T) \<Longrightarrow>
   filter (\<lambda>e. e = Disable_user v) (fst (enforce_limits dis ex sl g T)) = []"
proof -
  assume nk: "v \<notin> set (map fst T)"
  have "e \<noteq> Disable_user v" if "e \<in> set (fst (enforce_limits dis ex sl g T))" for e
  proof
    assume "e = Disable_user v"
    then have "flags_user v e" by simp
    from enforce_flag_origin [OF that this] nk show False by (auto intro: rev_image_eqI)
  qed
  then show ?thesis by (auto simp: filter_empty_conv)
qed

lemma enforce_disable_once:
  "distinct (map fst T) \<Longrightarrow>
   length (filter (\<lambda>e. e = Disable_user v) (fst (enforce_limits dis ex sl g T))) \<le> 1"
proof (induction T)
  case Nil show ?case by simp
next
  case (Cons p T)
  obtain u m where p: "p = (u, m)" by (cases p)
  have d: "distinct (map fst T)" and nk: "u \<notin> set (map fst T)"
    using Cons.prems by (simp_all add: p)
  show ?case
  proof (cases "u = v")
    case True
    have "filter (\<lambda>e. e = Disable_user v) (fst (enforce_limits dis ex sl g T)) = []"
      using enforce_no_key nk True by simp
    then show ?thesis
      by (cases "dis u") (auto simp: p Let_def split_def True)
  next
    case False
    then show ?thesis
      using Cons.IH [OF d] by (cases "dis u") (auto simp: p Let_def split_def)
  qed
qed

lemma enforce_cons_cases:
  "fst (enforce_limits dis ex sl g ((u, m) # T)) = fst (enforce_limits dis ex sl g T)
   \<or> (dis u = Disabled \<and> fst (enforce_limits dis ex sl g ((u, m) # T)) =
        [Logger_warning u (int (length m)) (map fst m),
         Send_logs_warning u (int (length m)) (map fst m), Disable_user u]
        @ fst (enforce_limits dis ex sl g T))
   \<or> (\<exists>msg'. dis u = Raises_ValueError msg' \<and> fst (enforce_limits dis ex sl g ((u, m) # T)) =
        [Logger_warning u (int (length m)) (map fst m),
         Send_logs_warning u (int (length m)) (map fst m)]
        @ [Disable_user u, Print msg'] @ fst (enforce_limits dis ex sl g T))
   \<or> (\<exists>msg'. dis u = Raises_other msg' \<and> fst (enforce_limits dis ex sl g ((u, m) # T)) =
        [Logger_warning u (int (length m)) (map fst m),
         Send_logs_warning u (int (length m)) (map fst m), Disable_user u])"
  by (cases "dis u") (simp_all add: Let_def split_def)

lemma enforce_print_follows:
  "dis v = Raises_ValueError msg \<Longrightarrow>
   Disable_user v \<in> set (fst (enforce_limits dis ex sl g T)) \<Longrightarrow>
   \<exists>pre post. fst (enforce_limits dis ex sl g T) = pre @ [Disable_user v, Print msg] @ post"
proof (induction T)
  case Nil then show ?case by simp
next
  case (Cons p T)
  obtain u m where p: "p = (u, m)" by (cases p)
  let ?w = "Logger_warning u (int (length m)) (map fst m)"
  let ?s = "Send_logs_warning u (int (length m)) (map fst m)"
  let ?rest = "fst (enforce_limits dis ex sl g T)"
  let ?all = "fst (enforce_limits dis ex sl g (p # T))"
  have later: "\<exists>pre post. ?all = pre @ [Disable_user v, Print msg] @ post"
    if "?all = front @ ?rest" "Disable_user v \<in> set ?rest" for front
  proof -
    from Cons.IH [OF Cons.prems(1) that(2)] obtain pre post where
      "?rest = pre @ [Disable_user v, Print msg] @ post" by blast
    then have "?all = (front @ pre) @ [Disable_user v, Print msg] @ post"
      using that(1) by simp
    then show ?thesis by blast
  qed
  consider (skip) "?all = ?rest"
    | (ok) "dis u = Disabled" "?all = [?w, ?s, Disable_user u] @ ?rest"
    | (verr) msg' where "dis u = Raises_ValueError msg'"
        "?all = [?w, ?s] @ [Disable_user u, Print msg'] @ ?rest"
    | (other) msg' where "dis u = Raises_other msg'" "?all = [?w, ?s, Disable_user u]"
    using enforce_cons_cases [of dis ex sl g u m T] unfolding p by blast
  then show ?case
  proof cases
    case skip
    then show ?thesis using later [of "[]"] Cons.prems(2) by simp
  next
    case ok
    with Cons.prems have "Disable_user v \<in> set ?rest" by auto
    then show ?thesis using later [of "[?w, ?s, Disable_user u]"] ok(2) by simp
  next
    case verr
    show ?thesis
    proof (cases "u = v")
      case True
      with verr Cons.prems(1) have "?all = [?w, ?s] @ [Disable_user v, Print msg] @ ?rest"
        by simp
      then show ?thesis by blast
    next
      case False
      with verr Cons.prems(2) have "Disable_user v \<in> set ?rest" by auto
      then show ?thesis
        using later [of "[?w, ?s] @ [Disable_user u, Print msg']"] verr(2) by simp
    qed
  next
    case other
    with Cons.prems show ?thesis by auto
  qed
qed


lemma bob_disable_called:
  "Disable_user ''bob'' \<in> set (snd (snd (check_users_usage remdups fails_for_bob config_3 state_bc)))"
  by code_simp

lemma carl_disable_called:
  "Disable_user ''carl'' \<in> set (snd (snd (check_users_usage remdups fails_for_bob config_3 state_bc)))"
  by code_simp

text \<open>
  Claim C6. Take a cycle whose configuration has a general limit and in which the disable
  action fails with value errors only. The cycle then runs to its end and raises nothing.
  The state it leaves, streak table included, is the one it leaves when no call fails:
  the table is what the streak update made of it. Apart from the printed errors, the
  events are those of the cycle without failures, so every later user is treated as
  usual. The disable action is called at most once for a user, and a call that fails is
  followed at once by the print of its error.
\<close>

theorem disable_failure_contained:
  assumes g: "GENERAL_LIMIT config_data = Some limit_number"
    and np: "\<forall>v. \<not> propagates (disable_user v)"
    and d: "distinct (map fst (IP_STREAKS st))"
  shows "(let r = check_users_usage so disable_user config_data st;
              r0 = check_users_usage so (\<lambda>v. Disabled) config_data st;
              evs = snd (snd r)
          in fst r = None
           \<and> fst (snd r) = fst (snd r0)
           \<and> IP_STREAKS (fst (snd r)) =
               update_ip_streaks so (fst (check_ip_used (ACTIVE_USERS st))) (IP_STREAKS st)
           \<and> filter (\<lambda>e. \<not> is_print e) evs = snd (snd r0)
           \<and> length (filter (\<lambda>e. e = Disable_user v) evs) \<le> 1
           \<and> (disable_user v = Raises_ValueError msg \<longrightarrow> Disable_user v \<in> set evs \<longrightarrow>
                (\<exists>pre post. evs = pre @ [Disable_user v, Print msg] @ post)))"
proof -
  define T where "T = update_ip_streaks so (fst (check_ip_used (ACTIVE_USERS st))) (IP_STREAKS st)"
  define ex where "ex = (case EXCEPT_USERS config_data of Some l \<Rightarrow> l | None \<Rightarrow> [])"
  define sl where "sl = (case SPECIAL_LIMIT config_data of Some d \<Rightarrow> d | None \<Rightarrow> [])"
  define ts where "ts = shorter_messages (report_messages T)"
  define evs3 where "evs3 = fst (enforce_limits disable_user ex sl limit_number T)"
  define evs0 where "evs0 = fst (enforce_limits (\<lambda>v. Disabled) ex sl limit_number T)"
  define evs where "evs = snd (check_ip_used (ACTIVE_USERS st)) @ map Send_logs ts @ evs3"
  have np0: "\<forall>v. \<not> propagates ((\<lambda>v. Disabled) v)" by simp
  have r: "check_users_usage so disable_user config_data st =
      (None, \<lparr>ACTIVE_USERS = [], IP_STREAKS = T\<rparr>, evs)"
    unfolding evs_def evs3_def ts_def ex_def sl_def T_def by (rule cycle_events [OF g np])
  have r0: "check_users_usage so (\<lambda>v. Disabled) config_data st =
      (None, \<lparr>ACTIVE_USERS = [], IP_STREAKS = T\<rparr>,
       snd (check_ip_used (ACTIVE_USERS st)) @ map Send_logs ts @ evs0)"
    unfolding evs0_def ts_def ex_def sl_def T_def by (rule cycle_events [OF g np0])
  have dT: "distinct (map fst T)" unfolding T_def using d by (rule update_ip_streaks_distinct)
  have fd: "filter (\<lambda>e. e = Disable_user v) evs = filter (\<lambda>e. e = Disable_user v) evs3"
    unfolding evs_def by (rule filter_disable_prefix)
  have once: "length (filter (\<lambda>e. e = Disable_user v) evs) \<le> 1"
    unfolding fd evs3_def using dT by (rule enforce_disable_once)
  have noprint: "filter (\<lambda>e. \<not> is_print e) evs =
      snd (check_ip_used (ACTIVE_USERS st)) @ map Send_logs ts @ evs0"
    unfolding evs_def filter_print_prefix evs3_def evs0_def
    by (simp only: enforce_filter_print [OF np])
  have follows: "\<exists>pre post. evs = pre @ [Disable_user v, Print msg] @ post"
    if v: "disable_user v = Raises_ValueError msg" and mem: "Disable_user v \<in> set evs"
  proof -
    have "Disable_user v \<in> set (filter (\<lambda>e. e = Disable_user v) evs)" using mem by simp
    then have "Disable_user v \<in> set evs3" unfolding fd by simp
    from enforce_print_follows [OF v this [unfolded evs3_def]] obtain pre post where
      "evs3 = pre @ [Disable_user v, Print msg] @ post" unfolding evs3_def by blast
    then have "evs = (snd (check_ip_used (ACTIVE_USERS st)) @ map Send_logs ts @ pre)
        @ [Disable_user v, Print msg] @ post"
      unfolding evs_def by simp
    then show ?thesis by blast
  qed
  show ?thesis
    unfolding Let_def r r0 T_def [symmetric]
    using once noprint follows by simp
qed

theorem disable_failure_contained_witness:
  "fst (check_users_usage remdups fails_for_bob config_3 state_bc) = None
   \<and> fst (snd (check_users_usage remdups fails_for_bob config_3 state_bc))
       = fst (snd (check_users_usage remdups (\<lambda>v. Disabled) config_3 state_bc))
   \<and> filter (\<lambda>e. \<not> is_print e)
        (snd (snd (check_users_usage remdups fails_for_bob config_3 state_bc)))
       = snd (snd (check_users_usage remdups (\<lambda>v. Disabled) config_3 state_bc))
   \<and> length (filter (\<lambda>e. e = Disable_user ''bob'')
        (snd (snd (check_users_usage remdups fails_for_bob config_3 state_bc)))) \<le> 1
   \<and> (\<exists>pre post. snd (snd (check_users_usage remdups fails_for_bob config_3 state_bc))
         = pre @ [Disable_user ''bob'', Print ''boom''] @ post)
   \<and> Disable_user ''carl''
        \<in> set (snd (snd (check_users_usage remdups fails_for_bob config_3 state_bc)))"
proof -
  have g: "GENERAL_LIMIT config_3 = Some 3" by (simp add: config_3_def)
  have np: "\<forall>v. \<not> propagates (fails_for_bob v)" by (simp add: fails_for_bob_def)
  have d: "distinct (map fst (IP_STREAKS state_bc))" by (simp add: state_bc_def)
  have v: "fails_for_bob ''bob'' = Raises_ValueError ''boom''" by (simp add: fails_for_bob_def)
  show ?thesis
    using disable_failure_contained [OF g np d, of remdups "''bob''" "''boom''", unfolded Let_def]
      v bob_disable_called carl_disable_called
    by blast
qed

subsection \<open>End of the cycle\<close>

text \<open>
  Claim C7. A cycle that runs to its end (its configuration has a general limit and the
  disable action raises nothing but value errors) leaves \<^verbatim>\<open>ACTIVE_USERS\<close> empty. It does
  not clear \<^verbatim>\<open>IP_STREAKS\<close>: the table is exactly what this cycle's streak update produced,
  and its users are the users of this cycle's snapshot.
\<close>

theorem end_of_cycle:
  assumes g: "GENERAL_LIMIT config_data = Some limit_number"
    and np: "\<forall>v. \<not> propagates (disable_user v)"
    and au: "distinct (map fst (ACTIVE_USERS st))"
  shows "(let r = check_users_usage so disable_user config_data st; st' = fst (snd r)
          in fst r = None
           \<and> ACTIVE_USERS st' = []
           \<and> IP_STREAKS st' =
               update_ip_streaks so (fst (check_ip_used (ACTIVE_USERS st))) (IP_STREAKS st)
           \<and> set (map fst (IP_STREAKS st')) = set (map fst (ACTIVE_USERS st)))"
proof -
  let ?cur = "fst (check_ip_used (ACTIVE_USERS st))"
  let ?T = "update_ip_streaks so ?cur (IP_STREAKS st)"
  have "u \<in> set (map fst ?T) \<longleftrightarrow> u \<in> set (map fst ?cur)" for u
    using update_ip_streaks_absent [of u ?cur so "IP_STREAKS st"]
      update_ip_streaks_present [of u ?cur so "IP_STREAKS st"]
      map_of_eq_None_iff [of ?T u]
    by auto
  then have "set (map fst ?T) = set (map fst ?cur)" by blast
  then have keys: "set (map fst ?T) = set (map fst (ACTIVE_USERS st))"
    using au by (simp add: check_ip_used_keys)
  show ?thesis
    unfolding Let_def cycle_events [OF g np] using keys by simp
qed


theorem end_of_cycle_witness:
  "fst (check_users_usage remdups (\<lambda>v. Disabled) config_ab state_ab) = None
   \<and> ACTIVE_USERS (fst (snd (check_users_usage remdups (\<lambda>v. Disabled) config_ab state_ab))) = []
   \<and> IP_STREAKS (fst (snd (check_users_usage remdups (\<lambda>v. Disabled) config_ab state_ab)))
       = [(''alice'', [(''10.0.0.1'', 1), (''10.0.0.2'', 1), (''10.0.0.3'', 1), (''10.0.0.4'', 1)]),
          (''bob'', [(''10.0.0.1'', 1), (''10.0.0.2'', 1), (''10.0.0.3'', 1), (''10.0.0.4'', 1)])]"
proof -
  have g: "GENERAL_LIMIT config_ab = Some 3" by (simp add: config_ab_def)
  have np: "\<forall>v. \<not> propagates ((\<lambda>v. Disabled) v)" by simp
  have au: "distinct (map fst (ACTIVE_USERS state_ab))" by (simp add: state_ab_def)
  show ?thesis
    using end_of_cycle [OF g np au, of remdups, unfolded Let_def] table_ab
    by simp
qed


end
